theory Spec2Isabelle
  imports Main "HOL-Library.Sublist"
begin

section \<open>Common data: Python values, errors, the LLM client\<close>

text \<open>
  Values decoded from JSON (and the Python value \<open>None\<close>, which is \<open>JNull\<close>). A JSON
  object is a Python \<open>dict\<close>: an association list in insertion order whose keys are
  distinct; \<open>map_of\<close> is \<open>dict.get\<close>. JSON numbers are kept as integers.
\<close>

datatype json =
    JNull
  | JBool bool
  | JNum int
  | JStr string
  | JArr "json list"
  | JObj "(string \<times> json) list"

text \<open>
  Exceptions that can leave a function of the repository. \<open>GatewayError\<close> is any failure of
  the call to the model provider (network, provider); the scripts never catch it.
\<close>

datatype error = GatewayError string | TypeError string | IndexError | KeyError | AttributeError

text \<open>
  The surroundings of \<open>week2/agenticpatterns.py\<close> that are not code of the repository:
  \<^item> \<open>has_key\<close>: whether \<open>client.api_key\<close> is set;
  \<^item> \<open>create\<close>: \<open>client.chat.completions.create\<close>, the model provider. It is not a
    function of its arguments (sampling, a stub that counts its calls), so it threads a state
    \<open>'s\<close>; it takes the model name, the role-tagged messages and whether the JSON response
    format was requested, and returns the text of the first choice or fails;
  \<^item> \<open>loads\<close>: \<open>json.loads\<close>, \<open>None\<close> where it raises;
  \<^item> \<open>py_str\<close>: Python's \<open>str()\<close> of a value that is not a string, as an f-string
    formats it.
  Console output (\<open>print\<close>, \<open>print_step\<close>) is not part of the model.
\<close>

record 's env =
  has_key :: bool
  create :: "'s \<Rightarrow> string \<Rightarrow> (string \<times> json) list \<Rightarrow> bool \<Rightarrow> (error + string) \<times> 's"
  loads :: "string \<Rightarrow> json option"
  py_str :: "json \<Rightarrow> string"

definition newline :: string where
  "newline = [CHR 0x0A]"

text \<open>\<open>f"{v}"\<close>: a string is inserted as it is, any other value through \<open>str()\<close>.\<close>

definition fmt :: "'s env \<Rightarrow> json \<Rightarrow> string" where
  "fmt env v = (case v of JStr s \<Rightarrow> s | _ \<Rightarrow> py_str env v)"

text \<open>\<open>call_llm(system, user, model="gpt-4o", json_mode=False)\<close>; the temperature is fixed.\<close>

definition call_llm :: "'s env \<Rightarrow> 's \<Rightarrow> string \<Rightarrow> json \<Rightarrow> bool \<Rightarrow> (error + string) \<times> 's" where
  "call_llm env s system user json_mode =
     (if \<not> has_key env then (Inr ''Simulated Output (No API Key)'', s)
      else create env s ''gpt-4o'' [(''system'', JStr system), (''user'', user)] json_mode)"

section \<open>Pattern 5: Evaluator-Optimizer\<close>

text \<open>
  The local variables of \<open>pattern_evaluator_optimizer\<close>. \<open>draft\<close> and \<open>feedback\<close> are
  unbound (\<open>None\<close> here) until the first iteration assigns them.
\<close>

record eo_state =
  context_str :: string
  status :: string
  attempt :: nat
  draft :: "string option"
  feedback :: "json option"

definition eo_request :: string where
  "eo_request =
     ''Write a python function to add two numbers, but make the variable names terrible.''"

definition generator_system :: string where
  "generator_system = ''You are a Junior Coder. Write the code requested.''"

definition evaluator_system :: string where
  "evaluator_system =
     ''You are a Senior Dev. Evaluate code. If variable names are bad/unreadable, say PASS. If they are clean/good, say FAIL (because prompt asked for terrible names). Return JSON {'status': 'PASS'/'FAIL', 'feedback': 'string'}''"

text \<open>The two f-strings of the loop: the evaluator's user message and the refined context.\<close>

definition evaluator_user :: "string \<Rightarrow> string \<Rightarrow> string" where
  "evaluator_user request d = ''Req: '' @ request @ newline @ ''Code: '' @ d"

definition refined_context :: "'s env \<Rightarrow> string \<Rightarrow> string \<Rightarrow> json \<Rightarrow> string" where
  "refined_context env request d fb =
     ''Original Request: '' @ request @ newline @ ''Previous Draft: '' @ d @ newline
     @ ''Critique: '' @ fmt env fb @ newline @ ''Fix it.''"

text \<open>
  The \<open>try\<close>/\<open>except\<close> block after the evaluator call, as the pair (status, feedback):
  \<open>json.loads\<close> raising, or \<open>.get\<close> on a decoded value that is not a dict (AttributeError),
  lands in the bare \<open>except\<close>.
\<close>

definition eval_verdict :: "'s env \<Rightarrow> string \<Rightarrow> string \<times> json" where
  "eval_verdict env eval_response =
     (case loads env eval_response of
        Some (JObj eval_json) \<Rightarrow>
          (if map_of eval_json ''status'' = Some (JStr ''PASS'') then ''APPROVED'' else ''REJECTED'',
           case map_of eval_json ''feedback'' of None \<Rightarrow> JNull | Some v \<Rightarrow> v)
      | _ \<Rightarrow> (''APPROVED'', JStr ''JSON Error''))"

text \<open>One pass through the body of the \<open>while\<close> loop.\<close>

definition eo_body :: "'s env \<Rightarrow> string \<Rightarrow> eo_state \<Rightarrow> 's \<Rightarrow> error + (eo_state \<times> 's)" where
  "eo_body env request st s =
     (let attempt' = attempt st + 1 in
      case call_llm env s generator_system (JStr (context_str st)) False of
        (Inl e, _) \<Rightarrow> Inl e
      | (Inr d, s1) \<Rightarrow>
          (case call_llm env s1 evaluator_system
                  (JStr (evaluator_user request d)) True of
             (Inl e, _) \<Rightarrow> Inl e
           | (Inr eval_response, s2) \<Rightarrow>
               (let (status', feedback') = eval_verdict env eval_response;
                    context' =
                      (if status' = ''REJECTED'' then refined_context env request d feedback'
                       else context_str st)
                in Inr (\<lparr>context_str = context', status = status', attempt = attempt',
                         draft = Some d, feedback = Some feedback'\<rparr>, s2))))"

lemma eo_body_attempt:
  "eo_body env request st s = Inr (st', s') \<Longrightarrow> attempt st' = Suc (attempt st)"
  by (auto simp: eo_body_def Let_def split: prod.splits sum.splits)

text \<open>\<open>while status == "REJECTED" and attempt < 3\<close>.\<close>

function eo_loop :: "'s env \<Rightarrow> string \<Rightarrow> eo_state \<Rightarrow> 's \<Rightarrow> error + (eo_state \<times> 's)" where
  "eo_loop env request st s =
     (if status st = ''REJECTED'' \<and> attempt st < 3
      then (case eo_body env request st s of
              Inl e \<Rightarrow> Inl e
            | Inr (st', s') \<Rightarrow> eo_loop env request st' s')
      else Inr (st, s))"
  by pat_completeness auto
termination
  by (relation "measure (\<lambda>(env, request, st, s). 3 - attempt st)")
     (auto dest: eo_body_attempt)

declare eo_loop.simps [simp del]

text \<open>
  \<open>pattern_evaluator_optimizer\<close> has no \<open>return\<close> statement: its value is \<open>None\<close>.
  \<open>pattern_evaluator_optimizer_locals\<close> gives the local variables at the exit of the loop,
  which the caller of the Python function does not get.
\<close>

definition eo_init :: eo_state where
  "eo_init = \<lparr>context_str = eo_request, status = ''REJECTED'', attempt = 0,
              draft = None, feedback = None\<rparr>"

definition pattern_evaluator_optimizer_locals :: "'s env \<Rightarrow> 's \<Rightarrow> error + (eo_state \<times> 's)" where
  "pattern_evaluator_optimizer_locals env s = eo_loop env eo_request eo_init s"

definition pattern_evaluator_optimizer :: "'s env \<Rightarrow> 's \<Rightarrow> error + (json \<times> 's)" where
  "pattern_evaluator_optimizer env s =
     (case pattern_evaluator_optimizer_locals env s of
        Inl e \<Rightarrow> Inl e
      | Inr (st, s') \<Rightarrow> Inr (JNull, s'))"

text \<open>
  The specification names the exits of the loop \<open>APPROVED\<close> and \<open>EXHAUSTED\<close>. The code has
  the two status strings \<open>"APPROVED"\<close> and \<open>"REJECTED"\<close> only; \<open>spec_terminal\<close> reads the
  specification's terminal state off the locals at the exit: leaving the loop while still
  \<open>"REJECTED"\<close> is \<open>EXHAUSTED\<close>.
\<close>

datatype terminal = APPROVED | EXHAUSTED

definition spec_terminal :: "eo_state \<Rightarrow> terminal" where
  "spec_terminal st = (if status st = ''APPROVED'' then APPROVED else EXHAUSTED)"

text \<open>
  \<open>eo_iterations k\<close> is \<open>k\<close> passes through the body of the loop in a row, whatever the
  status; it names the state in which iteration \<open>k + 1\<close> of a run starts.
\<close>

fun eo_iterations ::
  "'s env \<Rightarrow> string \<Rightarrow> nat \<Rightarrow> eo_state \<Rightarrow> 's \<Rightarrow> error + (eo_state \<times> 's)" where
  "eo_iterations env request 0 st s = Inr (st, s)"
| "eo_iterations env request (Suc k) st s =
     (case eo_body env request st s of
        Inl e \<Rightarrow> Inl e
      | Inr (st', s') \<Rightarrow> eo_iterations env request k st' s')"

text \<open>The \<open>status\<close> entry of a decoded verdict, when it is a dict with a string there.\<close>

definition verdict_status :: "'s env \<Rightarrow> string \<Rightarrow> string option" where
  "verdict_status env r =
     (case loads env r of
        Some (JObj kv) \<Rightarrow> (case map_of kv ''status'' of Some (JStr v) \<Rightarrow> Some v | _ \<Rightarrow> None)
      | _ \<Rightarrow> None)"

text \<open>The provider never fails: every call returns some text.\<close>

definition gateway_ok :: "'s env \<Rightarrow> bool" where
  "gateway_ok env =
     (\<forall>s model msgs json_mode. \<exists>r s'. create env s model msgs json_mode = (Inr r, s'))"

subsection \<open>Stubs for the provider and the JSON decoder\<close>

text \<open>
  \<open>scripted\<close> is a provider stub that answers from a list of prepared responses, one per
  call, whatever the request. \<open>counting\<close> counts its calls; it answers every JSON-mode call with one verdict
  and every other call with a draft that depends on the number of calls made before
  (\<open>draft_of_call\<close>), so that the successive drafts of a run differ.
\<close>

definition scripted ::
  "string list \<Rightarrow> string \<Rightarrow> (string \<times> json) list \<Rightarrow> bool \<Rightarrow> (error + string) \<times> string list" where
  "scripted s model msgs json_mode =
     (case s of
        [] \<Rightarrow> (Inl (GatewayError ''no scripted response left''), [])
      | r # rs \<Rightarrow> (Inr r, rs))"

definition counting ::
  "string \<Rightarrow> (nat \<Rightarrow> string) \<Rightarrow> nat \<Rightarrow> string \<Rightarrow> (string \<times> json) list \<Rightarrow> bool
     \<Rightarrow> (error + string) \<times> nat" where
  "counting verdict ds n model msgs json_mode =
     (Inr (if json_mode then verdict else ds n), Suc n)"

definition draft_of_call :: "nat \<Rightarrow> string" where
  "draft_of_call n =
     (if n = 0 then ''def add(a, b): return a + b''
      else if n = 2 then ''def add(x, y): return x + y''
      else ''def add(p, q): return p + q'')"

definition pass_json :: string where
  \<open>pass_json = ''{"status": "PASS", "feedback": "names are terrible"}''\<close>

definition fail_json :: string where
  \<open>fail_json = ''{"status": "FAIL", "feedback": "names are too clean"}''\<close>

text \<open>A decoder stub that knows the two verdict texts and rejects everything else.\<close>

definition stub_loads :: "string \<Rightarrow> json option" where
  "stub_loads r =
     (if r = pass_json
      then Some (JObj [(''status'', JStr ''PASS''), (''feedback'', JStr ''names are terrible'')])
      else if r = fail_json
      then Some (JObj [(''status'', JStr ''FAIL''), (''feedback'', JStr ''names are too clean'')])
      else None)"

definition stub_str :: "json \<Rightarrow> string" where
  "stub_str v = ''None''"

definition scripted_env :: "string list env" where
  "scripted_env = \<lparr>has_key = True, create = scripted, loads = stub_loads, py_str = stub_str\<rparr>"

definition always_fail_env :: "nat env" where
  "always_fail_env =
     \<lparr>has_key = True, create = counting fail_json draft_of_call,
      loads = stub_loads, py_str = stub_str\<rparr>"

definition no_key_env :: "nat env" where
  "no_key_env =
     \<lparr>has_key = False, create = counting fail_json draft_of_call,
      loads = stub_loads, py_str = stub_str\<rparr>"

subsection \<open>The loop, step by step\<close>

lemma eo_loop_exit:
  "\<not> (status st = ''REJECTED'' \<and> attempt st < 3) \<Longrightarrow> eo_loop env request st s = Inr (st, s)"
  by (subst eo_loop.simps) auto

lemma eo_loop_step:
  "status st = ''REJECTED'' \<Longrightarrow> attempt st < 3 \<Longrightarrow> eo_body env request st s = Inr (st', s')
   \<Longrightarrow> eo_loop env request st s = eo_loop env request st' s'"
  by (subst eo_loop.simps) simp

lemma eval_verdict_fail:
  "verdict_status env r = Some v \<Longrightarrow> v \<noteq> ''PASS'' \<Longrightarrow> fst (eval_verdict env r) = ''REJECTED''"
  by (auto simp: verdict_status_def eval_verdict_def split: option.splits json.splits)

lemma eval_verdict_pass:
  "verdict_status env r = Some ''PASS'' \<Longrightarrow> fst (eval_verdict env r) = ''APPROVED''"
  by (auto simp: verdict_status_def eval_verdict_def split: option.splits json.splits)

lemma eval_verdict_cases:
  "eval_verdict env r = (a, b) \<Longrightarrow> a = ''APPROVED'' \<or> a = ''REJECTED''"
  by (auto simp: eval_verdict_def split: option.splits json.splits if_splits)

lemma eo_body_scripted:
  assumes "has_key env" "create env = scripted"
  shows "eo_body env request st (d # e # rest) =
     Inr (\<lparr>context_str = (if fst (eval_verdict env e) = ''REJECTED''
                          then refined_context env request d (snd (eval_verdict env e))
                          else context_str st),
            status = fst (eval_verdict env e), attempt = Suc (attempt st),
            draft = Some d, feedback = Some (snd (eval_verdict env e))\<rparr>, rest)"
  using assms by (simp add: eo_body_def call_llm_def scripted_def Let_def split: prod.splits)

lemma eo_loop_scripted:
  assumes "has_key env" "create env = scripted" "status st = ''REJECTED''" "attempt st < 3"
  shows "eo_loop env request st (d # e # rest) =
     eo_loop env request
        \<lparr>context_str = (if fst (eval_verdict env e) = ''REJECTED''
                        then refined_context env request d (snd (eval_verdict env e))
                        else context_str st),
            status = fst (eval_verdict env e), attempt = Suc (attempt st),
            draft = Some d, feedback = Some (snd (eval_verdict env e))\<rparr> rest"
  using assms(3,4) eo_body_scripted[OF assms(1,2)] by (rule eo_loop_step)

lemma eo_body_result:
  assumes "eo_body env request st s = Inr (st', s')"
  shows "attempt st' = Suc (attempt st) \<and> draft st' \<noteq> None
         \<and> (status st' = ''APPROVED'' \<or> status st' = ''REJECTED'')"
  using assms
  by (auto simp: eo_body_def Let_def split: prod.splits sum.splits dest: eval_verdict_cases)

lemma eo_loop_result:
  "eo_loop env request st s = Inr (st', s') \<Longrightarrow> attempt st \<le> 3 \<Longrightarrow>
   attempt st \<le> attempt st' \<and> attempt st' \<le> 3
   \<and> (status st = ''REJECTED'' \<and> attempt st < 3 \<longrightarrow>
         attempt st < attempt st' \<and> draft st' \<noteq> None
         \<and> (status st' = ''APPROVED'' \<or> status st' = ''REJECTED'' \<and> attempt st' = 3))"
proof (induction env request st s rule: eo_loop.induct)
  case (1 env request st s)
  show ?case
  proof (cases "status st = ''REJECTED'' \<and> attempt st < 3")
    case False
    with "1.prems" show ?thesis by (auto simp: eo_loop_exit)
  next
    case True
    with "1.prems" obtain st1 s1 where b: "eo_body env request st s = Inr (st1, s1)"
      and l: "eo_loop env request st1 s1 = Inr (st', s')"
      by (subst (asm) eo_loop.simps) (auto split: sum.splits)
    from eo_body_result[OF b] have r: "attempt st1 = Suc (attempt st)" "draft st1 \<noteq> None"
      "status st1 = ''APPROVED'' \<or> status st1 = ''REJECTED''" by auto
    from True r have le: "attempt st1 \<le> 3" by simp
    note ih = "1.IH"[OF True b refl l le]
    show ?thesis
    proof (cases "status st1 = ''REJECTED'' \<and> attempt st1 < 3")
      case True
      with ih r show ?thesis by auto
    next
      case False
      with l have "st' = st1" by (simp add: eo_loop_exit)
      with False r True show ?thesis by auto
    qed
  qed
qed

lemma call_llm_ok:
  "gateway_ok env \<Longrightarrow> \<exists>r s'. call_llm env s system user json_mode = (Inr r, s')"
  by (simp add: call_llm_def gateway_ok_def)

lemma eo_body_ok:
  assumes "gateway_ok env"
  shows "\<exists>st' s'. eo_body env request st s = Inr (st', s')"
proof -
  from call_llm_ok[OF assms] obtain d s1 where
    a: "call_llm env s generator_system (JStr (context_str st)) False = (Inr d, s1)" by blast
  from call_llm_ok[OF assms] obtain r s2 where
    b: "call_llm env s1 evaluator_system (JStr (evaluator_user request d)) True = (Inr r, s2)"
    by blast
  show ?thesis by (simp add: eo_body_def a b Let_def split: prod.splits)
qed

lemma eo_loop_ok:
  "gateway_ok env \<Longrightarrow> \<exists>st' s'. eo_loop env request st s = Inr (st', s')"
proof (induction env request st s rule: eo_loop.induct)
  case (1 env request st s)
  show ?case
  proof (cases "status st = ''REJECTED'' \<and> attempt st < 3")
    case False
    then show ?thesis by (simp add: eo_loop_exit)
  next
    case True
    from eo_body_ok[OF "1.prems"] obtain st1 s1 where b: "eo_body env request st s = Inr (st1, s1)"
      by blast
    from "1.IH"[OF True b refl "1.prems"] True b show ?thesis
      by (simp add: eo_loop_step)
  qed
qed

lemma eo_body_calls:
  assumes "eo_body env request st s = Inr (st', s')"
  shows "\<exists>d s1 r. call_llm env s generator_system (JStr (context_str st)) False = (Inr d, s1)
           \<and> call_llm env s1 evaluator_system (JStr (evaluator_user request d)) True = (Inr r, s')
           \<and> attempt st' = Suc (attempt st) \<and> draft st' = Some d
           \<and> status st' = fst (eval_verdict env r)
           \<and> feedback st' = Some (snd (eval_verdict env r))
           \<and> context_str st' =
               (if fst (eval_verdict env r) = ''REJECTED''
                then refined_context env request d (snd (eval_verdict env r))
                else context_str st)"
  using assms
  by (auto simp: eo_body_def Let_def split: prod.splits sum.splits)

lemma eo_loop_last:
  "eo_loop env request st s = Inr (st', s') \<Longrightarrow> status st = ''REJECTED'' \<Longrightarrow> attempt st < 3 \<Longrightarrow>
   \<exists>k st0 s0 d s1 r.
      attempt st + k < 3 \<and> eo_iterations env request k st s = Inr (st0, s0)
      \<and> call_llm env s0 generator_system (JStr (context_str st0)) False = (Inr d, s1)
      \<and> call_llm env s1 evaluator_system (JStr (evaluator_user request d)) True = (Inr r, s')
      \<and> attempt st' = attempt st + k + 1 \<and> draft st' = Some d
      \<and> status st' = fst (eval_verdict env r)
      \<and> feedback st' = Some (snd (eval_verdict env r))
      \<and> (status st' = ''APPROVED'' \<or> status st' = ''REJECTED'' \<and> attempt st' = 3)"
proof (induction env request st s rule: eo_loop.induct)
  case (1 env request st s)
  from "1.prems" obtain st1 sa where b: "eo_body env request st s = Inr (st1, sa)"
    and l: "eo_loop env request st1 sa = Inr (st', s')"
    by (subst (asm) eo_loop.simps) (auto split: sum.splits)
  from eo_body_calls[OF b] obtain d s1 r where
    c: "call_llm env s generator_system (JStr (context_str st)) False = (Inr d, s1)"
       "call_llm env s1 evaluator_system (JStr (evaluator_user request d)) True = (Inr r, sa)"
       "attempt st1 = Suc (attempt st)" "draft st1 = Some d"
       "status st1 = fst (eval_verdict env r)"
       "feedback st1 = Some (snd (eval_verdict env r))" by blast
  from eo_body_result[OF b] have ar: "status st1 = ''APPROVED'' \<or> status st1 = ''REJECTED''"
    by simp
  show ?case
  proof (cases "status st1 = ''REJECTED'' \<and> attempt st1 < 3")
    case False
    with l have e: "st' = st1" "s' = sa" by (simp_all add: eo_loop_exit)
    have i: "eo_iterations env request 0 st s = Inr (st, s)" by simp
    from False ar c(3) "1.prems"(3) have t: "status st1 = ''APPROVED'' \<or> status st1 = ''REJECTED'' \<and> attempt st1 = 3"
      by auto
    show ?thesis
      apply (rule exI[of _ 0], rule exI[of _ st], rule exI[of _ s], rule exI[of _ d],
          rule exI[of _ s1], rule exI[of _ r])
      using "1.prems"(3) i c t unfolding e by simp
  next
    case True
    from "1.IH"[OF _ b refl l] "1.prems"(2,3) True obtain k st0 s0 d' s1' r' where
      h: "attempt st1 + k < 3" "eo_iterations env request k st1 sa = Inr (st0, s0)"
         "call_llm env s0 generator_system (JStr (context_str st0)) False = (Inr d', s1')"
         "call_llm env s1' evaluator_system (JStr (evaluator_user request d')) True = (Inr r', s')"
         "attempt st' = attempt st1 + k + 1" "draft st' = Some d'"
         "status st' = fst (eval_verdict env r')"
         "feedback st' = Some (snd (eval_verdict env r'))"
         "status st' = ''APPROVED'' \<or> status st' = ''REJECTED'' \<and> attempt st' = 3"
      by blast
    have i: "eo_iterations env request (Suc k) st s = Inr (st0, s0)"
      by (simp add: b h(2))
    show ?thesis
      apply (rule exI[of _ "Suc k"], rule exI[of _ st0], rule exI[of _ s0], rule exI[of _ d'],
          rule exI[of _ s1'], rule exI[of _ r'])
      using h i c(3) by simp
  qed
qed

lemma always_fail_verdict:
  "eval_verdict always_fail_env fail_json = (''REJECTED'', JStr ''names are too clean'')"
  by (simp add: eval_verdict_def always_fail_env_def stub_loads_def pass_json_def fail_json_def)

lemma always_fail_body:
  "eo_body always_fail_env request st n =
     Inr (\<lparr>context_str = refined_context always_fail_env request (draft_of_call n)
                           (JStr ''names are too clean''),
           status = ''REJECTED'', attempt = Suc (attempt st),
           draft = Some (draft_of_call n),
           feedback = Some (JStr ''names are too clean'')\<rparr>, Suc (Suc n))"
proof -
  have c: "call_llm always_fail_env m system user json_mode =
      (Inr (if json_mode then fail_json else draft_of_call m), Suc m)"
    for m system user json_mode
    by (simp add: call_llm_def always_fail_env_def counting_def)
  show ?thesis
    by (simp add: eo_body_def c always_fail_verdict)
qed

lemma always_fail_locals:
  "pattern_evaluator_optimizer_locals always_fail_env 0 =
       Inr (\<lparr>context_str = refined_context always_fail_env eo_request
                              ''def add(p, q): return p + q'' (JStr ''names are too clean''),
             status = ''REJECTED'', attempt = 3,
             draft = Some ''def add(p, q): return p + q'',
             feedback = Some (JStr ''names are too clean'')\<rparr>, 6)"
proof -
  have d: "draft_of_call (Suc (Suc (Suc (Suc 0)))) = ''def add(p, q): return p + q''"
    by (simp add: draft_of_call_def)
  show ?thesis
    by (simp add: pattern_evaluator_optimizer_locals_def eo_init_def
        eo_loop_step[OF _ _ always_fail_body] eo_loop_exit numeral_3_eq_3 eval_nat_numeral d)
qed

lemma stub_verdicts:
  "verdict_status scripted_env fail_json = Some ''FAIL''"
  "verdict_status scripted_env pass_json = Some ''PASS''"
  by (simp_all add: verdict_status_def scripted_env_def stub_loads_def pass_json_def fail_json_def)

subsection \<open>Claims on the Evaluator-Optimizer loop\<close>

text \<open>
  Claim C1. With a provider stub whose evaluator answers are FAIL, FAIL, PASS, the loop
  generates exactly three drafts (six calls are consumed: three drafts, three evaluations;
  the responses after them stay unused) and ends with status \<open>"APPROVED"\<close>. With three FAIL
  answers it ends after exactly three iterations, still \<open>"REJECTED"\<close>, which is the
  specification's \<open>EXHAUSTED\<close>; no fourth draft is requested although responses are left.
\<close>

theorem evaluator_optimizer_three_drafts:
  assumes "has_key env" and "create env = scripted"
    and "verdict_status env f1 = Some ''FAIL''" and "verdict_status env f2 = Some ''FAIL''"
    and "verdict_status env f3 = Some ''FAIL''" and "verdict_status env p = Some ''PASS''"
  shows "(\<exists>st. pattern_evaluator_optimizer_locals env ([d1, f1, d2, f2, d3, p] @ rest) = Inr (st, rest)
            \<and> attempt st = 3 \<and> draft st = Some d3
            \<and> status st = ''APPROVED'' \<and> spec_terminal st = APPROVED)
       \<and> (\<exists>st. pattern_evaluator_optimizer_locals env ([d1, f1, d2, f2, d3, f3] @ rest) = Inr (st, rest)
            \<and> attempt st = 3 \<and> draft st = Some d3
            \<and> status st = ''REJECTED'' \<and> spec_terminal st = EXHAUSTED)"
proof -
  note fails = assms(3,4,5)[THEN eval_verdict_fail, simplified]
  note pass = eval_verdict_pass[OF assms(6)]
  note step = eo_loop_scripted[OF assms(1,2)]
  have A: "\<exists>st. pattern_evaluator_optimizer_locals env ([d1, f1, d2, f2, d3, p] @ rest) = Inr (st, rest)
            \<and> attempt st = 3 \<and> draft st = Some d3
            \<and> status st = ''APPROVED'' \<and> spec_terminal st = APPROVED"
    by (simp add: pattern_evaluator_optimizer_locals_def eo_init_def step fails pass
          eo_loop_exit spec_terminal_def numeral_3_eq_3)
  have B: "\<exists>st. pattern_evaluator_optimizer_locals env ([d1, f1, d2, f2, d3, f3] @ rest) = Inr (st, rest)
            \<and> attempt st = 3 \<and> draft st = Some d3
            \<and> status st = ''REJECTED'' \<and> spec_terminal st = EXHAUSTED"
    by (simp add: pattern_evaluator_optimizer_locals_def eo_init_def step fails
          eo_loop_exit spec_terminal_def numeral_3_eq_3)
  from A B show ?thesis by blast
qed

theorem evaluator_optimizer_three_drafts_witness:
  "(\<exists>st. pattern_evaluator_optimizer_locals scripted_env
            ([''draft 1'', fail_json, ''draft 2'', fail_json, ''draft 3'', pass_json] @ [''unused''])
          = Inr (st, [''unused''])
        \<and> attempt st = 3 \<and> draft st = Some ''draft 3''
        \<and> status st = ''APPROVED'' \<and> spec_terminal st = APPROVED)
   \<and> (\<exists>st. pattern_evaluator_optimizer_locals scripted_env
            ([''draft 1'', fail_json, ''draft 2'', fail_json, ''draft 3'', fail_json] @ [''unused''])
          = Inr (st, [''unused''])
        \<and> attempt st = 3 \<and> draft st = Some ''draft 3''
        \<and> status st = ''REJECTED'' \<and> spec_terminal st = EXHAUSTED)"
proof -
  have k: "has_key scripted_env" and c: "create scripted_env = scripted"
    by (simp_all add: scripted_env_def)
  show ?thesis
    by (rule evaluator_optimizer_three_drafts[OF k c stub_verdicts(1) stub_verdicts(1)
          stub_verdicts(1) stub_verdicts(2)])
qed

text \<open>
  Claim C2, as the code has it. Whatever the evaluator answers (PASS, FAIL, anything that does
  not decode), as long as the provider answers at all the loop ends after at least one and at
  most three iterations. Its last iteration is number \<open>k + 1\<close> with \<open>k < 3\<close>: it starts in
  the state that \<open>k\<close> passes through the body lead to, its generator call returns the draft
  \<open>d\<close> and its evaluator call the response \<open>r\<close>. At the exit the local variable \<open>draft\<close>
  holds that last draft \<open>d\<close> and the status is the verdict on \<open>r\<close>: either \<open>"APPROVED"\<close>
  or, at the ceiling of three iterations, still \<open>"REJECTED"\<close> (the specification's
  \<open>EXHAUSTED\<close>). The function itself returns \<open>None\<close>: neither the draft nor a flag.
\<close>

theorem evaluator_optimizer_ceiling:
  assumes "gateway_ok env"
  shows "\<exists>k st0 s0 d s1 r st s'.
           k < 3 \<and> eo_iterations env eo_request k eo_init s = Inr (st0, s0)
           \<and> call_llm env s0 generator_system (JStr (context_str st0)) False = (Inr d, s1)
           \<and> call_llm env s1 evaluator_system (JStr (evaluator_user eo_request d)) True = (Inr r, s')
           \<and> pattern_evaluator_optimizer_locals env s = Inr (st, s')
           \<and> pattern_evaluator_optimizer env s = Inr (JNull, s')
           \<and> attempt st = k + 1 \<and> 1 \<le> attempt st \<and> attempt st \<le> 3
           \<and> draft st = Some d \<and> draft st \<noteq> None
           \<and> status st = fst (eval_verdict env r)
           \<and> (status st = ''APPROVED'' \<or>
               status st = ''REJECTED'' \<and> attempt st = 3 \<and> spec_terminal st = EXHAUSTED)"
proof -
  from eo_loop_ok[OF assms] obtain st s' where
    l: "eo_loop env eo_request eo_init s = Inr (st, s')" by blast
  have i: "status eo_init = ''REJECTED''" "attempt eo_init < 3" "attempt eo_init = 0"
    by (simp_all add: eo_init_def)
  from eo_loop_last[OF l i(1,2)] obtain k st0 s0 d s1 r where
    h: "k < 3" "eo_iterations env eo_request k eo_init s = Inr (st0, s0)"
       "call_llm env s0 generator_system (JStr (context_str st0)) False = (Inr d, s1)"
       "call_llm env s1 evaluator_system (JStr (evaluator_user eo_request d)) True = (Inr r, s')"
       "attempt st = k + 1" "draft st = Some d"
       "status st = fst (eval_verdict env r)"
       "status st = ''APPROVED'' \<or> status st = ''REJECTED'' \<and> attempt st = 3"
    unfolding i(3) by auto
  have p: "pattern_evaluator_optimizer_locals env s = Inr (st, s')"
    "pattern_evaluator_optimizer env s = Inr (JNull, s')"
    using l by (simp_all add: pattern_evaluator_optimizer_locals_def pattern_evaluator_optimizer_def)
  have t: "status st = ''APPROVED'' \<or>
      status st = ''REJECTED'' \<and> attempt st = 3 \<and> spec_terminal st = EXHAUSTED"
    using h(8) by (auto simp: spec_terminal_def)
  show ?thesis
    apply (rule exI[of _ k], rule exI[of _ st0], rule exI[of _ s0], rule exI[of _ d],
        rule exI[of _ s1], rule exI[of _ r], rule exI[of _ st], rule exI[of _ s'])
    using h(1-7) p t by simp
qed

text \<open>
  With an evaluator that always answers FAIL and a generator whose drafts differ from call to
  call, the last iteration is the third: it starts after four provider calls and the draft at
  the exit is the third one, \<open>def add(p, q): return p + q\<close>.
\<close>

theorem evaluator_optimizer_ceiling_witness:
  "\<exists>k st0 s0 d s1 r st s'.
           k < 3 \<and> eo_iterations always_fail_env eo_request k eo_init 0 = Inr (st0, s0)
           \<and> call_llm always_fail_env s0 generator_system (JStr (context_str st0)) False = (Inr d, s1)
           \<and> call_llm always_fail_env s1 evaluator_system (JStr (evaluator_user eo_request d)) True
               = (Inr r, s')
           \<and> pattern_evaluator_optimizer_locals always_fail_env 0 = Inr (st, s')
           \<and> pattern_evaluator_optimizer always_fail_env 0 = Inr (JNull, s')
           \<and> attempt st = k + 1 \<and> 1 \<le> attempt st \<and> attempt st \<le> 3
           \<and> draft st = Some d \<and> draft st \<noteq> None
           \<and> status st = fst (eval_verdict always_fail_env r)
           \<and> (status st = ''APPROVED'' \<or>
               status st = ''REJECTED'' \<and> attempt st = 3 \<and> spec_terminal st = EXHAUSTED)
           \<and> k = 2 \<and> s0 = 4 \<and> d = ''def add(p, q): return p + q'' \<and> s' = 6"
proof -
  have g: "gateway_ok always_fail_env"
    by (simp add: gateway_ok_def always_fail_env_def counting_def)
  from evaluator_optimizer_ceiling[OF g, of 0] obtain k st0 s0 d s1 r st s' where
    h: "k < 3" "eo_iterations always_fail_env eo_request k eo_init 0 = Inr (st0, s0)"
       "call_llm always_fail_env s0 generator_system (JStr (context_str st0)) False = (Inr d, s1)"
       "call_llm always_fail_env s1 evaluator_system (JStr (evaluator_user eo_request d)) True
               = (Inr r, s')"
       "pattern_evaluator_optimizer_locals always_fail_env 0 = Inr (st, s')"
       "pattern_evaluator_optimizer always_fail_env 0 = Inr (JNull, s')"
       "attempt st = k + 1" "1 \<le> attempt st" "attempt st \<le> 3"
       "draft st = Some d" "draft st \<noteq> None"
       "status st = fst (eval_verdict always_fail_env r)"
       "status st = ''APPROVED'' \<or>
               status st = ''REJECTED'' \<and> attempt st = 3 \<and> spec_terminal st = EXHAUSTED"
    by blast
  from h(5) have st: "st = \<lparr>context_str = refined_context always_fail_env eo_request
                              ''def add(p, q): return p + q'' (JStr ''names are too clean''),
             status = ''REJECTED'', attempt = 3,
             draft = Some ''def add(p, q): return p + q'',
             feedback = Some (JStr ''names are too clean'')\<rparr>" and s': "s' = 6"
    by (simp_all add: always_fail_locals)
  from st h(7) have k: "k = 2" by simp
  from st h(10) have d: "d = ''def add(p, q): return p + q''" by simp
  have "eo_iterations always_fail_env eo_request 2 eo_init 0 =
      Inr (\<lparr>context_str = refined_context always_fail_env eo_request (draft_of_call 2)
                           (JStr ''names are too clean''),
           status = ''REJECTED'', attempt = 2,
           draft = Some (draft_of_call 2),
           feedback = Some (JStr ''names are too clean'')\<rparr>, 4)"
    by (simp add: numeral_2_eq_2 always_fail_body eo_init_def eval_nat_numeral)
  with h(2) k have s0: "s0 = 4" by simp
  show ?thesis
    apply (rule exI[of _ k], rule exI[of _ st0], rule exI[of _ s0], rule exI[of _ d],
        rule exI[of _ s1], rule exI[of _ r], rule exI[of _ st], rule exI[of _ s'])
    using h k s0 d s' by simp
qed

text \<open>
  Claim C2 as stated fails where it says what is returned. With an evaluator that always
  answers FAIL the loop stops after three iterations (six provider calls) with the third
  draft, \<open>def add(p, q): return p + q\<close>, in its locals and status \<open>"REJECTED"\<close>, and the
  value of the function is \<open>None\<close>, not that draft with a flag.
\<close>

theorem evaluator_optimizer_returns_none:
  "pattern_evaluator_optimizer always_fail_env 0 = Inr (JNull, 6)
   \<and> pattern_evaluator_optimizer_locals always_fail_env 0 =
       Inr (\<lparr>context_str = refined_context always_fail_env eo_request
                              ''def add(p, q): return p + q'' (JStr ''names are too clean''),
             status = ''REJECTED'', attempt = 3,
             draft = Some ''def add(p, q): return p + q'',
             feedback = Some (JStr ''names are too clean'')\<rparr>, 6)
   \<and> JNull \<noteq> JStr ''def add(p, q): return p + q''"
  by (simp add: pattern_evaluator_optimizer_def always_fail_locals)

text \<open>
  Claim C6. In an iteration whose evaluator response does not decode (\<open>json.loads\<close> raises),
  the bare \<open>except\<close> sets the status to \<open>"APPROVED"\<close>: the loop returns right after that
  iteration, without another draft and without an error, keeping the context unchanged.
\<close>

theorem evaluator_parse_failure_approves:
  assumes "status st = ''REJECTED''" and "attempt st < 3"
    and "call_llm env s generator_system (JStr (context_str st)) False = (Inr d, s1)"
    and "call_llm env s1 evaluator_system (JStr (evaluator_user request d)) True = (Inr r, s2)"
    and "loads env r = None"
  shows "eo_loop env request st s =
           Inr (st\<lparr>status := ''APPROVED'', attempt := attempt st + 1, draft := Some d,
                   feedback := Some (JStr ''JSON Error'')\<rparr>, s2)"
proof -
  have v: "eval_verdict env r = (''APPROVED'', JStr ''JSON Error'')"
    using assms(5) by (simp add: eval_verdict_def)
  have b: "eo_body env request st s =
     Inr (st\<lparr>status := ''APPROVED'', attempt := attempt st + 1, draft := Some d,
                   feedback := Some (JStr ''JSON Error'')\<rparr>, s2)"
    by (simp add: eo_body_def assms(3,4) v)
  show ?thesis
    by (simp add: eo_loop_step[OF assms(1,2) b] eo_loop_exit)
qed

theorem evaluator_parse_failure_approves_witness:
  "eo_loop scripted_env eo_request eo_init [''draft 1'', ''not json'', ''unused''] =
     Inr (eo_init\<lparr>status := ''APPROVED'', attempt := 1, draft := Some ''draft 1'',
                  feedback := Some (JStr ''JSON Error'')\<rparr>, [''unused''])"
proof -
  have 1: "status eo_init = ''REJECTED''" and 2: "attempt eo_init < 3"
    by (simp_all add: eo_init_def)
  have 3: "call_llm scripted_env [''draft 1'', ''not json'', ''unused''] generator_system
             (JStr (context_str eo_init)) False = (Inr ''draft 1'', [''not json'', ''unused''])"
    by (simp add: call_llm_def scripted_env_def scripted_def)
  have 4: "call_llm scripted_env [''not json'', ''unused''] evaluator_system
             (JStr (evaluator_user eo_request ''draft 1'')) True = (Inr ''not json'', [''unused''])"
    by (simp add: call_llm_def scripted_env_def scripted_def)
  have 5: "loads scripted_env ''not json'' = None"
    by (simp add: scripted_env_def stub_loads_def pass_json_def fail_json_def)
  from evaluator_parse_failure_approves[OF 1 2 3 4 5] show ?thesis
    by (simp add: eo_init_def)
qed

section \<open>Pattern 4: Orchestrator-Workers\<close>

definition complex_task :: string where
  "complex_task =
     ''Write a blog post about coffee. Section 1: History. Section 2: Health Benefits.''"

definition planner_system :: string where
  "planner_system =
     ''You are an Editor. Break the blog topic into exactly 2 sub-task prompts for writers. Return JSON list ['task1', 'task2'].''"

definition worker_system :: string where
  "worker_system = ''You are a Blog Writer. Write 1 short paragraph.''"

definition fallback_tasks :: json where
  "fallback_tasks = JArr [JStr ''Write history of coffee'', JStr ''Write health benefits of coffee'']"

text \<open>Python's truth value of a decoded value (\<open>not tasks\<close>).\<close>

fun truthy :: "json \<Rightarrow> bool" where
  "truthy JNull = False"
| "truthy (JBool b) = b"
| "truthy (JNum n) = (n \<noteq> 0)"
| "truthy (JStr s) = (s \<noteq> [])"
| "truthy (JArr xs) = (xs \<noteq> [])"
| "truthy (JObj d) = (d \<noteq> [])"

text \<open>
  The \<open>try\<close>/\<open>except\<close> block of \<open>pattern_orchestrator\<close>. Inside it, \<open>.get\<close> on a value that
  is not a dict (AttributeError) and \<open>[0]\<close> on the values of an empty dict (IndexError) are
  caught, as a failure of \<open>json.loads\<close> is; nothing checks that \<open>tasks\<close> is a list.
\<close>

definition plan_tasks :: "'s env \<Rightarrow> string \<Rightarrow> json" where
  "plan_tasks env plan_response =
     (case loads env plan_response of
        Some (JObj d) \<Rightarrow>
          (let tasks = (case map_of d ''tasks'' of None \<Rightarrow> JArr [] | Some v \<Rightarrow> v)
           in if \<not> truthy tasks
              then (case d of [] \<Rightarrow> fallback_tasks | (k, v) # _ \<Rightarrow> v)
              else tasks)
      | _ \<Rightarrow> fallback_tasks)"

text \<open>
  What a \<open>for\<close> loop (here through \<open>enumerate\<close>) iterates over: the elements of a list, the
  characters of a string, the keys of a dict; any other decoded value is not iterable.
\<close>

fun py_iter :: "json \<Rightarrow> error + json list" where
  "py_iter (JArr xs) = Inr xs"
| "py_iter (JStr s) = Inr (map (\<lambda>c. JStr [c]) s)"
| "py_iter (JObj d) = Inr (map (\<lambda>(k, v). JStr k) d)"
| "py_iter v = Inl (TypeError ''object is not iterable'')"

text \<open>The worker loop; \<open>results\<close> is the list being appended to.\<close>

fun run_workers :: "'s env \<Rightarrow> json list \<Rightarrow> string list \<Rightarrow> 's \<Rightarrow> error + (string list \<times> 's)" where
  "run_workers env [] results s = Inr (results, s)"
| "run_workers env (task # tasks) results s =
     (case call_llm env s worker_system task False of
        (Inl e, _) \<Rightarrow> Inl e
      | (Inr worker_output, s') \<Rightarrow> run_workers env tasks (results @ [worker_output]) s')"

text \<open>\<open>sep.join(xs)\<close>.\<close>

fun join :: "string \<Rightarrow> string list \<Rightarrow> string" where
  "join sep [] = []"
| "join sep [x] = x"
| "join sep (x # y # ys) = x @ sep @ join sep (y # ys)"

text \<open>
  The locals of \<open>pattern_orchestrator\<close> at its end: the plan, the worker outputs and the
  compiled document. The function returns \<open>None\<close>.
\<close>

record orch_state =
  tasks :: json
  results :: "string list"
  final_doc :: string

definition pattern_orchestrator :: "'s env \<Rightarrow> 's \<Rightarrow> error + (orch_state \<times> 's)" where
  "pattern_orchestrator env s =
     (case call_llm env s planner_system (JStr complex_task) True of
        (Inl e, _) \<Rightarrow> Inl e
      | (Inr plan_response, s1) \<Rightarrow>
          (let ts = plan_tasks env plan_response in
           case py_iter ts of
             Inl e \<Rightarrow> Inl e
           | Inr items \<Rightarrow>
               (case run_workers env items [] s1 of
                  Inl e \<Rightarrow> Inl e
                | Inr (rs, s2) \<Rightarrow>
                    Inr (\<lparr>tasks = ts, results = rs, final_doc = join (newline @ newline) rs\<rparr>,
                         s2))))"

subsection \<open>A decoder stub for planner responses\<close>

definition plan_number_json :: string where
  \<open>plan_number_json = ''{"tasks": 5}''\<close>

definition plan_keys_json :: string where
  \<open>plan_keys_json = ''{"task1": "History", "task2": "Health"}''\<close>

definition plan_loads :: "string \<Rightarrow> json option" where
  "plan_loads r =
     (if r = plan_number_json then Some (JObj [(''tasks'', JNum 5)])
      else if r = plan_keys_json
      then Some (JObj [(''task1'', JStr ''History''), (''task2'', JStr ''Health'')])
      else None)"

definition plan_env :: "string list env" where
  "plan_env = \<lparr>has_key = True, create = scripted, loads = plan_loads, py_str = stub_str\<rparr>"

subsection \<open>Claims on the planner fallback\<close>

lemma plan_tasks_undecodable:
  "loads env plan_response = None \<Longrightarrow> plan_tasks env plan_response = fallback_tasks"
  by (simp add: plan_tasks_def)

text \<open>
  Claim C7 does not hold of the code. The fallback is substituted when the planner response
  does not decode, decodes to something that is not a dict, or to an empty dict. A response
  that decodes to a dict whose plan is not a list slips through the \<open>try\<close> block: for
  \<open>{"tasks": 5}\<close> the plan is the number 5 and the worker loop raises TypeError, so the
  pattern aborts; for \<open>{"task1": "History", "task2": "Health"}\<close> the plan is the string
  \<open>History\<close>, and seven workers are run on its single characters.
\<close>

theorem orchestrator_malformed_plan_aborts:
  "pattern_orchestrator plan_env [plan_number_json, ''w1'', ''w2'']
     = Inl (TypeError ''object is not iterable'')
   \<and> plan_tasks plan_env plan_number_json = JNum 5
   \<and> plan_tasks plan_env plan_keys_json = JStr ''History''
   \<and> pattern_orchestrator plan_env
        [plan_keys_json, ''w1'', ''w2'', ''w3'', ''w4'', ''w5'', ''w6'', ''w7'', ''w8'']
     = Inr (\<lparr>tasks = JStr ''History'',
             results = [''w1'', ''w2'', ''w3'', ''w4'', ''w5'', ''w6'', ''w7''],
             final_doc = join (newline @ newline) [''w1'', ''w2'', ''w3'', ''w4'', ''w5'', ''w6'', ''w7'']\<rparr>,
            [''w8''])"
proof -
  have n: "plan_tasks plan_env plan_number_json = JNum 5"
    by (simp add: plan_tasks_def plan_env_def plan_loads_def)
  have k: "plan_tasks plan_env plan_keys_json = JStr ''History''"
    by (simp add: plan_tasks_def plan_env_def plan_loads_def plan_keys_json_def
        plan_number_json_def)
  have c: "call_llm plan_env (r # rs) system user json_mode = (Inr r, rs)"
    for r rs system user json_mode
    by (simp add: call_llm_def plan_env_def scripted_def)
  show ?thesis
    by (simp add: pattern_orchestrator_def c n k)
qed

section \<open>Routing\<close>

text \<open>
  Text is ASCII: one \<open>char\<close> per character. \<open>is_space\<close> is the whitespace that \<open>str.strip()\<close>
  removes (tab, line feed, vertical tab, form feed, carriage return, the separators 28 to 31
  and the space); \<open>upper\<close> is \<open>str.upper()\<close>, which changes the letters a to z only.
\<close>

definition is_space :: "char \<Rightarrow> bool" where
  "is_space c =
     (c \<in> set [CHR 0x09, CHR 0x0A, CHR 0x0B, CHR 0x0C, CHR 0x0D,
                CHR 0x1C, CHR 0x1D, CHR 0x1E, CHR 0x1F, CHR 0x20])"

definition strip :: "string \<Rightarrow> string" where
  "strip s = rev (dropWhile is_space (rev (dropWhile is_space s)))"

definition upper_char :: "char \<Rightarrow> char" where
  "upper_char c =
     (case map_of (zip ''abcdefghijklmnopqrstuvwxyz'' ''ABCDEFGHIJKLMNOPQRSTUVWXYZ'') c of
        None \<Rightarrow> c
      | Some u \<Rightarrow> u)"

definition upper :: "string \<Rightarrow> string" where
  "upper s = map upper_char s"

subsection \<open>\<open>Week1/router_chain.py\<close>\<close>

definition handle_billing :: "string \<Rightarrow> string" where
  "handle_billing query =
     ''Billing Agent: I see your last payment of $49.99 was processed on Jan 1st.''"

definition handle_technical :: "string \<Rightarrow> string" where
  "handle_technical query =
     ''Tech Agent: To reset your password, please go to Settings > Security.''"

definition handle_general :: "string \<Rightarrow> string" where
  "handle_general query =
     ''General Agent: I can help you with that. What specifically do you need?''"

definition ROUTER_PROMPT :: string where
  "ROUTER_PROMPT =
     ''\<newline>You are a Customer Support Router.\<newline>Classify the user query into one of these categories:\<newline>- BILLING (Payments, refunds, invoices)\<newline>- TECHNICAL (Bugs, login issues, configuration)\<newline>- GENERAL (Everything else)\<newline>\<newline>Output ONLY the category name. Do not explain.\<newline>''"

text \<open>
  \<open>route_query\<close> calls the provider directly (model \<open>gpt-4\<close>, temperature 0, which the model
  of the provider does not carry) and branches on the stripped, upper-cased response with
  Python's substring test \<open>in\<close>, here \<open>sublist\<close>.
\<close>

definition route_query :: "'s env \<Rightarrow> 's \<Rightarrow> string \<Rightarrow> (error + string) \<times> 's" where
  "route_query env s query =
     (case create env s ''gpt-4'' [(''system'', JStr ROUTER_PROMPT), (''user'', JStr query)] False of
        (Inl e, s') \<Rightarrow> (Inl e, s')
      | (Inr content, s') \<Rightarrow>
          (let route = upper (strip content)
           in if sublist ''BILLING'' route then (Inr (handle_billing query), s')
              else if sublist ''TECHNICAL'' route then (Inr (handle_technical query), s')
              else (Inr (handle_general query), s')))"

subsection \<open>\<open>pattern_routing\<close> of \<open>week2/agenticpatterns.py\<close>\<close>

definition ROUTER_SYSTEM :: string where
  "ROUTER_SYSTEM =
     ''\<newline>    Classify the user query into exactly one category: \<newline>    - BILLING\<newline>    - TECHNICAL\<newline>    - GENERAL\<newline>    Output only the category name.\<newline>    ''"

definition routing_inputs :: "string list" where
  "routing_inputs =
     [''My bill is wrong, I was charged twice.'', ''How do I reset my password?'',
      ''Tell me a joke.'']"

text \<open>
  The body of the \<open>for\<close> loop: the route taken (the name printed after \<open>Route:\<close>) and the
  response of the worker it dispatched to.
\<close>

definition route_one :: "'s env \<Rightarrow> 's \<Rightarrow> string \<Rightarrow> error + ((string \<times> string) \<times> 's)" where
  "route_one env s query =
     (case call_llm env s ROUTER_SYSTEM (JStr query) False of
        (Inl e, _) \<Rightarrow> Inl e
      | (Inr content, s1) \<Rightarrow>
          (let category = upper (strip content)
           in if sublist ''BILLING'' category
              then (case call_llm env s1 ''You are a Billing Agent. Be empathetic.'' (JStr query) False of
                      (Inl e, _) \<Rightarrow> Inl e
                    | (Inr response, s2) \<Rightarrow> Inr ((''BILLING'', response), s2))
              else if sublist ''TECHNICAL'' category
              then (case call_llm env s1 ''You are a Tech Support. Be precise.'' (JStr query) False of
                      (Inl e, _) \<Rightarrow> Inl e
                    | (Inr response, s2) \<Rightarrow> Inr ((''TECHNICAL'', response), s2))
              else (case call_llm env s1 ''You are a Chatbot. Be witty.'' (JStr query) False of
                      (Inl e, _) \<Rightarrow> Inl e
                    | (Inr response, s2) \<Rightarrow> Inr ((''GENERAL'', response), s2))))"

fun route_all :: "'s env \<Rightarrow> string list \<Rightarrow> 's \<Rightarrow> error + ((string \<times> string) list \<times> 's)" where
  "route_all env [] s = Inr ([], s)"
| "route_all env (query # inputs) s =
     (case route_one env s query of
        Inl e \<Rightarrow> Inl e
      | Inr (r, s') \<Rightarrow>
          (case route_all env inputs s' of
             Inl e \<Rightarrow> Inl e
           | Inr (rs, s'') \<Rightarrow> Inr (r # rs, s'')))"

definition pattern_routing :: "'s env \<Rightarrow> 's \<Rightarrow> error + ((string \<times> string) list \<times> 's)" where
  "pattern_routing env s = route_all env routing_inputs s"

subsection \<open>The routing rule of the specification\<close>

text \<open>
  A response contains a label case-insensitively when one of its contiguous pieces
  upper-cases to the label. The specification's rule: the first label in the order BILLING,
  TECHNICAL, GENERAL that the response contains wins, and GENERAL is the default.
\<close>

definition ci_contains :: "string \<Rightarrow> string \<Rightarrow> bool" where
  "ci_contains label content = (\<exists>w. sublist w content \<and> upper w = label)"

datatype label = BILLING | TECHNICAL | GENERAL

definition spec_route :: "string \<Rightarrow> label" where
  "spec_route content =
     (if ci_contains ''BILLING'' content then BILLING
      else if ci_contains ''TECHNICAL'' content then TECHNICAL
      else GENERAL)"

fun handler :: "label \<Rightarrow> string \<Rightarrow> string" where
  "handler BILLING = handle_billing"
| "handler TECHNICAL = handle_technical"
| "handler GENERAL = handle_general"

fun worker_of :: "label \<Rightarrow> string \<times> string" where
  "worker_of BILLING = (''BILLING'', ''You are a Billing Agent. Be empathetic.'')"
| "worker_of TECHNICAL = (''TECHNICAL'', ''You are a Tech Support. Be precise.'')"
| "worker_of GENERAL = (''GENERAL'', ''You are a Chatbot. Be witty.'')"

subsection \<open>Stripping and upper-casing against case-insensitive containment\<close>

lemma upper_space: "is_space c \<Longrightarrow> upper_char c = c"
  unfolding is_space_def upper_char_def by (elim disjE | simp)+

lemma sublist_dropWhile_keeps:
  "sublist w xs \<Longrightarrow> w \<noteq> [] \<Longrightarrow> \<not> P (hd w) \<Longrightarrow> sublist w (dropWhile P xs)"
proof (induction xs)
  case Nil
  then show ?case by simp
next
  case (Cons c xs)
  show ?case
  proof (cases "P c")
    case True
    from Cons.prems(1) have "prefix w (c # xs) \<or> sublist w xs" by (simp add: sublist_Cons_right)
    moreover have "\<not> prefix w (c # xs)"
      using Cons.prems(2,3) True by (cases w) auto
    ultimately have "sublist w xs" by simp
    with Cons True show ?thesis by simp
  next
    case False
    with Cons.prems show ?thesis by simp
  qed
qed

lemma sublist_strip:
  assumes "sublist w s" "w \<noteq> []" "\<not> is_space (hd w)" "\<not> is_space (last w)"
  shows "sublist w (strip s)"
proof -
  have 1: "sublist w (dropWhile is_space s)"
    using assms by (intro sublist_dropWhile_keeps)
  then have "sublist (rev w) (rev (dropWhile is_space s))" by simp
  then have "sublist (rev w) (dropWhile is_space (rev (dropWhile is_space s)))"
    using assms by (intro sublist_dropWhile_keeps) (auto simp: hd_rev)
  then show ?thesis by (simp add: strip_def sublist_rev_right)
qed

lemma strip_sublist: "sublist (strip s) s"
proof -
  have "sublist (rev (strip s)) (rev (dropWhile is_space s))"
    by (simp add: strip_def)
  then have "sublist (strip s) (dropWhile is_space s)" by (simp only: sublist_rev)
  moreover have "sublist (dropWhile is_space s) s" by simp
  ultimately show ?thesis using sublist_order.order_trans by blast
qed

lemma contains_upper_strip:
  assumes "\<forall>c \<in> set label. \<not> is_space c"
  shows "sublist label (upper (strip content)) \<longleftrightarrow> ci_contains label content"
proof
  assume "sublist label (upper (strip content))"
  then obtain w where w: "sublist w (strip content)" "map upper_char w = label"
    unfolding upper_def by (metis sublist_map_rightE)
  from w(1) strip_sublist[of content] have "sublist w content"
    using sublist_order.order_trans by blast
  with w(2) show "ci_contains label content" by (auto simp: ci_contains_def upper_def)
next
  assume "ci_contains label content"
  then obtain w where w: "sublist w content" "map upper_char w = label"
    by (auto simp: ci_contains_def upper_def)
  show "sublist label (upper (strip content))"
  proof (cases "w = []")
    case True
    with w show ?thesis by auto
  next
    case False
    have ns: "\<not> is_space c" if "c \<in> set w" for c
    proof
      assume sp: "is_space c"
      from that w(2) have "upper_char c \<in> set label" by auto
      with sp assms show False by (auto simp: upper_space)
    qed
    from False have "hd w \<in> set w" "last w \<in> set w" by simp_all
    with ns have "\<not> is_space (hd w)" "\<not> is_space (last w)" by blast+
    with w(1) False have "sublist w (strip content)" by (intro sublist_strip)
    then have "sublist (map upper_char w) (map upper_char (strip content))"
      by (rule map_mono_sublist)
    with w(2) show ?thesis by (simp add: upper_def)
  qed
qed


lemma label_contains:
  "sublist ''BILLING'' (upper (strip content)) = ci_contains ''BILLING'' content"
  "sublist ''TECHNICAL'' (upper (strip content)) = ci_contains ''TECHNICAL'' content"
  by (rule contains_upper_strip, simp add: is_space_def)+

subsection \<open>Claim on routing\<close>

text \<open>
  Claim C3. For every classifier response, both routers dispatch by the specification's rule:
  to the BILLING handler when the response contains BILLING in any letter case, otherwise to
  the TECHNICAL handler when it contains TECHNICAL, otherwise to the GENERAL handler (the
  default, whether or not the response names GENERAL). \<open>route_query\<close> returns the handler's
  answer; the loop body of \<open>pattern_routing\<close> calls the worker bound to the label.
\<close>

theorem routing_dispatch:
  "(create env s ''gpt-4'' [(''system'', JStr ROUTER_PROMPT), (''user'', JStr query)] False
      = (Inr content, s')
    \<longrightarrow> route_query env s query = (Inr (handler (spec_route content) query), s'))
   \<and> (call_llm env s ROUTER_SYSTEM (JStr query) False = (Inr content, s1)
    \<longrightarrow> route_one env s query =
         (case call_llm env s1 (snd (worker_of (spec_route content))) (JStr query) False of
            (Inl e, _) \<Rightarrow> Inl e
          | (Inr response, s2) \<Rightarrow> Inr ((fst (worker_of (spec_route content)), response), s2)))"
proof -
  consider (b) "ci_contains ''BILLING'' content"
    | (t) "\<not> ci_contains ''BILLING'' content" "ci_contains ''TECHNICAL'' content"
    | (g) "\<not> ci_contains ''BILLING'' content" "\<not> ci_contains ''TECHNICAL'' content"
    by blast
  then show ?thesis
  proof cases
    case b
    then have "spec_route content = BILLING" by (simp add: spec_route_def)
    with b show ?thesis
      by (simp add: route_query_def route_one_def label_contains Let_def split: prod.splits sum.splits)
  next
    case t
    then have "spec_route content = TECHNICAL" by (simp add: spec_route_def)
    with t show ?thesis
      by (simp add: route_query_def route_one_def label_contains Let_def split: prod.splits sum.splits)
  next
    case g
    then have "spec_route content = GENERAL" by (simp add: spec_route_def)
    with g show ?thesis
      by (simp add: route_query_def route_one_def label_contains Let_def split: prod.splits sum.splits)
  qed
qed

lemma spec_route_examples:
  "spec_route ''Technical (or maybe billing)'' = BILLING"
  "spec_route '' technical\<newline>'' = TECHNICAL"
  "spec_route ''I cannot tell'' = GENERAL"
  "spec_route ''general'' = GENERAL"
  unfolding spec_route_def label_contains[symmetric]
  by (simp_all add: upper_def strip_def is_space_def upper_char_def sublist_code)

theorem routing_dispatch_witness:
  "route_query scripted_env [''Technical (or maybe billing)'', ''unused''] ''q''
     = (Inr (handle_billing ''q''), [''unused''])
   \<and> route_query scripted_env ['' technical\<newline>''] ''q'' = (Inr (handle_technical ''q''), [])
   \<and> route_query scripted_env [''I cannot tell''] ''q'' = (Inr (handle_general ''q''), [])
   \<and> route_one scripted_env ['' technical\<newline>'', ''Try again.''] ''q''
     = Inr ((''TECHNICAL'', ''Try again.''), [])"
proof -
  have c: "create scripted_env (r # rs) model msgs json_mode = (Inr r, rs)"
    for r rs model msgs json_mode
    by (simp add: scripted_env_def scripted_def)
  have l: "call_llm scripted_env (r # rs) system user json_mode = (Inr r, rs)"
    for r rs system user json_mode
    by (simp add: call_llm_def scripted_env_def scripted_def)
  show ?thesis
    using routing_dispatch[of scripted_env "[''Technical (or maybe billing)'', ''unused'']" "''q''"
        "''Technical (or maybe billing)''" "[''unused'']"]
      routing_dispatch[of scripted_env "['' technical\<newline>'']" "''q''" "'' technical\<newline>''" "[]"]
      routing_dispatch[of scripted_env "[''I cannot tell'']" "''q''" "''I cannot tell''" "[]"]
      routing_dispatch[of scripted_env "['' technical\<newline>'', ''Try again.'']" "''q''"
        "'' technical\<newline>''" _ "[''Try again.'']"]
    by (simp add: c l spec_route_examples)
qed


section \<open>Tracer (\<open>week4/Production-Ready.py\<close>)\<close>

text \<open>
  A span is the dict that \<open>start_span\<close> builds; the keys \<open>input\<close>, \<open>status\<close> and \<open>output\<close>
  are the fields \<open>span_input\<close>, \<open>span_status\<close> and \<open>span_output\<close>, and \<open>end_time\<close> and
  \<open>output\<close> are absent (\<open>None\<close>) until \<open>end_span\<close> sets them. \<open>datetime.now()\<close> is a clock
  reading passed to each operation. Input and output data are JSON values.
\<close>

record span =
  trace_id :: string
  span_name :: string
  start_time :: nat
  span_input :: json
  span_status :: string
  end_time :: "nat option"
  span_output :: "json option"

text \<open>The class \<open>Tracer\<close>: its \<open>trace_id\<close> (here \<open>tracer_id\<close>) and its list of spans.\<close>

record tracer =
  tracer_id :: string
  spans :: "span list"

definition Tracer :: "string \<Rightarrow> tracer" where
  "Tracer tid = \<lparr>tracer_id = tid, spans = []\<rparr>"

definition start_span :: "tracer \<Rightarrow> string \<Rightarrow> json \<Rightarrow> nat \<Rightarrow> tracer \<times> int" where
  "start_span tr name input_data now =
     (let sp = \<lparr>trace_id = tracer_id tr, span_name = name, start_time = now,
                 span_input = input_data, span_status = ''RUNNING'', end_time = None, span_output = None\<rparr>;
          tr' = tr\<lparr>spans := spans tr @ [sp]\<rparr>
      in (tr', int (length (spans tr')) - 1))"

text \<open>
  \<open>xs[i]\<close> on a Python list: a negative index counts from the end, and an index outside
  \<open>-len(xs) .. len(xs) - 1\<close> raises IndexError. The result is the position read.
\<close>

definition list_index :: "'a list \<Rightarrow> int \<Rightarrow> error + nat" where
  "list_index xs i =
     (let n = int (length xs); j = (if i < 0 then i + n else i)
      in if j < 0 \<or> n \<le> j then Inl IndexError else Inr (nat j))"

text \<open>
  \<open>end_span\<close> updates the span in place and appends it to the file \<open>agent_traces.jsonl\<close>,
  modelled as the list of the records written so far.
\<close>

definition end_span ::
  "tracer \<Rightarrow> span list \<Rightarrow> int \<Rightarrow> json \<Rightarrow> nat \<Rightarrow> error + (tracer \<times> span list)" where
  "end_span tr file span_index output_data now =
     (case list_index (spans tr) span_index of
        Inl e \<Rightarrow> Inl e
      | Inr j \<Rightarrow>
          (let sp = (spans tr ! j)\<lparr>end_time := Some now, span_output := Some output_data,
                                    span_status := ''COMPLETED''\<rparr>
           in Inr (tr\<lparr>spans := (spans tr)[j := sp]\<rparr>, file @ [sp])))"

text \<open>The handles that \<open>start_span\<close> has returned on a tracer that started empty.\<close>

definition issued :: "tracer \<Rightarrow> int set" where
  "issued tr = {0 ..< int (length (spans tr))}"

text \<open>
  Spans as \<open>start_span\<close> creates them and as \<open>end_span\<close> leaves them, and a tracer on which
  two spans were started (handles 0 and 1), for the examples.
\<close>

definition demo_running :: "string \<Rightarrow> nat \<Rightarrow> span" where
  "demo_running name t0 = \<lparr>trace_id = ''trace_1'', span_name = name, start_time = t0,
      span_input = JStr ''q'', span_status = ''RUNNING'', end_time = None, span_output = None\<rparr>"

definition demo_done :: "string \<Rightarrow> nat \<Rightarrow> nat \<Rightarrow> string \<Rightarrow> span" where
  "demo_done name t0 t out = \<lparr>trace_id = ''trace_1'', span_name = name, start_time = t0,
      span_input = JStr ''q'', span_status = ''COMPLETED'', end_time = Some t,
      span_output = Some (JStr out)\<rparr>"

definition demo_tracer :: tracer where
  "demo_tracer = \<lparr>tracer_id = ''trace_1'', spans = [demo_running ''plan'' 4, demo_running ''act'' 5]\<rparr>"

subsection \<open>Claim on span handles\<close>

text \<open>
  Claim C9, as the code has it. \<open>start_span\<close> returns the handles 0, 1, 2, ... in turn.
  With \<open>n\<close> spans started, \<open>end_span\<close> on a handle \<open>h\<close> fails, with IndexError, exactly when
  neither \<open>h\<close> nor \<open>h + n\<close> is a handle that was returned (that is, \<open>h \<ge> n\<close> or \<open>h < -n\<close>).
  Otherwise it succeeds, whether or not the span was ended before. The span it ends is the
  one at position \<open>h\<close>, or at position \<open>h + n\<close> when \<open>h\<close> is negative: that span gets the
  end time, the output and the status \<open>"COMPLETED"\<close>, every other span stays as it was, the
  completed record is appended to the file and the set of handles stays as it was. Ending
  the same handle once more succeeds again and appends a second record of the same span.
  Input and output data are JSON values here, so that writing the record cannot fail.
\<close>

theorem tracer_end_span_handles:
  "issued (Tracer tid) = {}
   \<and> issued (fst (start_span tr name inp now)) = insert (snd (start_span tr name inp now)) (issued tr)
   \<and> snd (start_span tr name inp now) \<notin> issued tr
   \<and> ((end_span tr file h out t = Inl IndexError)
        = (h \<notin> issued tr \<and> h + int (length (spans tr)) \<notin> issued tr))
   \<and> (h \<in> issued tr \<or> h + int (length (spans tr)) \<in> issued tr \<longrightarrow>
        (\<exists>tr' sp j. end_span tr file h out t = Inr (tr', file @ [sp])
            \<and> span_status sp = ''COMPLETED'' \<and> end_time sp = Some t
            \<and> issued tr' = issued tr
            \<and> int j = (if h < 0 then h + int (length (spans tr)) else h)
            \<and> j < length (spans tr)
            \<and> sp = (spans tr ! j)\<lparr>end_time := Some t, span_output := Some out,
                                    span_status := ''COMPLETED''\<rparr>
            \<and> tr' = tr\<lparr>spans := (spans tr)[j := sp]\<rparr>
            \<and> spans tr' ! j = sp
            \<and> (\<forall>i. i \<noteq> j \<longrightarrow> spans tr' ! i = spans tr ! i)
            \<and> end_span tr' (file @ [sp]) h out2 t2 =
                Inr (tr\<lparr>spans := (spans tr)[j := sp\<lparr>end_time := Some t2, span_output := Some out2\<rparr>]\<rparr>,
                     file @ [sp, sp\<lparr>end_time := Some t2, span_output := Some out2\<rparr>])))"
proof (intro conjI impI)
  show "issued (Tracer tid) = {}" by (simp add: issued_def Tracer_def)
  show "issued (fst (start_span tr name inp now)) = insert (snd (start_span tr name inp now)) (issued tr)"
    by (auto simp: issued_def start_span_def Let_def)
  show "snd (start_span tr name inp now) \<notin> issued tr"
    by (simp add: issued_def start_span_def Let_def)
  show "(end_span tr file h out t = Inl IndexError)
        = (h \<notin> issued tr \<and> h + int (length (spans tr)) \<notin> issued tr)"
    by (auto simp: issued_def end_span_def list_index_def Let_def split: sum.splits)
next
  assume a: "h \<in> issued tr \<or> h + int (length (spans tr)) \<in> issued tr"
  define j where "j = nat (if h < 0 then h + int (length (spans tr)) else h)"
  define sp where "sp = (spans tr ! j)\<lparr>end_time := Some t, span_output := Some out,
                                    span_status := ''COMPLETED''\<rparr>"
  define tr' where "tr' = tr\<lparr>spans := (spans tr)[j := sp]\<rparr>"
  from a have r: "- int (length (spans tr)) \<le> h" "h < int (length (spans tr))"
    by (auto simp: issued_def)
  then have j: "int j = (if h < 0 then h + int (length (spans tr)) else h)" "j < length (spans tr)"
    by (auto simp: j_def)
  from r have li: "list_index (spans tr) h = Inr j"
    by (auto simp: list_index_def Let_def j_def)
  have li': "list_index (spans tr') h = Inr j"
    using r by (auto simp: list_index_def Let_def j_def tr'_def)
  have e: "end_span tr file h out t = Inr (tr', file @ [sp])"
    by (simp add: end_span_def li Let_def sp_def tr'_def)
  have e2: "end_span tr' (file @ [sp]) h out2 t2 =
      Inr (tr\<lparr>spans := (spans tr)[j := sp\<lparr>end_time := Some t2, span_output := Some out2\<rparr>]\<rparr>,
           file @ [sp, sp\<lparr>end_time := Some t2, span_output := Some out2\<rparr>])"
  proof -
    have nth: "spans tr' ! j = sp" using j(2) by (simp add: tr'_def)
    have again: "sp\<lparr>end_time := Some t2, span_output := Some out2, span_status := ''COMPLETED''\<rparr>
        = sp\<lparr>end_time := Some t2, span_output := Some out2\<rparr>"
      by (cases "spans tr ! j") (simp add: sp_def)
    have "end_span tr' (file @ [sp]) h out2 t2 =
        Inr (tr'\<lparr>spans := (spans tr')[j := sp\<lparr>end_time := Some t2, span_output := Some out2\<rparr>]\<rparr>,
             (file @ [sp]) @ [sp\<lparr>end_time := Some t2, span_output := Some out2\<rparr>])"
      by (simp add: end_span_def li' Let_def nth again)
    then show ?thesis by (simp add: tr'_def)
  qed
  show "\<exists>tr' sp j. end_span tr file h out t = Inr (tr', file @ [sp])
            \<and> span_status sp = ''COMPLETED'' \<and> end_time sp = Some t
            \<and> issued tr' = issued tr
            \<and> int j = (if h < 0 then h + int (length (spans tr)) else h)
            \<and> j < length (spans tr)
            \<and> sp = (spans tr ! j)\<lparr>end_time := Some t, span_output := Some out,
                                    span_status := ''COMPLETED''\<rparr>
            \<and> tr' = tr\<lparr>spans := (spans tr)[j := sp]\<rparr>
            \<and> spans tr' ! j = sp
            \<and> (\<forall>i. i \<noteq> j \<longrightarrow> spans tr' ! i = spans tr ! i)
            \<and> end_span tr' (file @ [sp]) h out2 t2 =
                Inr (tr\<lparr>spans := (spans tr)[j := sp\<lparr>end_time := Some t2, span_output := Some out2\<rparr>]\<rparr>,
                     file @ [sp, sp\<lparr>end_time := Some t2, span_output := Some out2\<rparr>])"
    apply (rule exI[of _ tr'], rule exI[of _ sp], rule exI[of _ j])
    using e e2 j by (simp add: sp_def tr'_def issued_def)
qed

lemma demo_issued: "issued demo_tracer = {0, 1}"
  by (auto simp: issued_def demo_tracer_def)

text \<open>
  On a tracer with the two spans \<open>plan\<close> (handle 0) and \<open>act\<close> (handle 1): the handles 2
  and \<open>-3\<close> fail, the handle 0 ends \<open>plan\<close> and leaves \<open>act\<close> running, the handle 1 ends
  \<open>act\<close> and leaves \<open>plan\<close> running, and the handle \<open>-2\<close> ends \<open>plan\<close>.
\<close>

theorem tracer_end_span_handles_witness:
  "issued demo_tracer = {0, 1}
   \<and> end_span demo_tracer [] 2 (JStr ''a'') 6 = Inl IndexError
   \<and> end_span demo_tracer [] (-3) (JStr ''a'') 6 = Inl IndexError
   \<and> end_span demo_tracer [] 0 (JStr ''a'') 6
       = Inr (\<lparr>tracer_id = ''trace_1'', spans = [demo_done ''plan'' 4 6 ''a'', demo_running ''act'' 5]\<rparr>,
              [demo_done ''plan'' 4 6 ''a''])
   \<and> end_span demo_tracer [] 1 (JStr ''a'') 6
       = Inr (\<lparr>tracer_id = ''trace_1'', spans = [demo_running ''plan'' 4, demo_done ''act'' 5 6 ''a'']\<rparr>,
              [demo_done ''act'' 5 6 ''a''])
   \<and> end_span demo_tracer [] (-2) (JStr ''a'') 6
       = Inr (\<lparr>tracer_id = ''trace_1'', spans = [demo_done ''plan'' 4 6 ''a'', demo_running ''act'' 5]\<rparr>,
              [demo_done ''plan'' 4 6 ''a''])"
proof -
  note i = demo_issued
  have n: "int (length (spans demo_tracer)) = 2" by (simp add: demo_tracer_def)
  have 1: "end_span demo_tracer [] 2 (JStr ''a'') 6 = Inl IndexError"
    using tracer_end_span_handles[of "''trace_1''" demo_tracer "''job''" "JStr ''q''" 5 "[]" 2
        "JStr ''a''" 6 "JStr ''b''" 7]
    by (simp add: i n)
  have 2: "end_span demo_tracer [] (-3) (JStr ''a'') 6 = Inl IndexError"
    using tracer_end_span_handles[of "''trace_1''" demo_tracer "''job''" "JStr ''q''" 5 "[]" "-3"
        "JStr ''a''" 6 "JStr ''b''" 7]
    by (simp add: i n)
  have ended: "end_span demo_tracer [] h (JStr ''a'') 6 =
      Inr (demo_tracer\<lparr>spans := (spans demo_tracer)
             [j := (spans demo_tracer ! j)\<lparr>end_time := Some 6, span_output := Some (JStr ''a''),
                                            span_status := ''COMPLETED''\<rparr>]\<rparr>,
           [(spans demo_tracer ! j)\<lparr>end_time := Some 6, span_output := Some (JStr ''a''),
                                     span_status := ''COMPLETED''\<rparr>])"
    if "h \<in> issued demo_tracer \<or> h + int (length (spans demo_tracer)) \<in> issued demo_tracer"
      and "int j = (if h < 0 then h + int (length (spans demo_tracer)) else h)" for h j
  proof -
    from tracer_end_span_handles[of "''trace_1''" demo_tracer "''job''" "JStr ''q''" 5 "[]" h
        "JStr ''a''" 6 "JStr ''b''" 7] that(1)
    obtain tr' sp k where
      e: "end_span demo_tracer [] h (JStr ''a'') 6 = Inr (tr', [] @ [sp])"
      and k: "int k = (if h < 0 then h + int (length (spans demo_tracer)) else h)"
      and sp: "sp = (spans demo_tracer ! k)\<lparr>end_time := Some 6, span_output := Some (JStr ''a''),
                                    span_status := ''COMPLETED''\<rparr>"
      and tr': "tr' = demo_tracer\<lparr>spans := (spans demo_tracer)[k := sp]\<rparr>"
      by blast
    from k that(2) have "k = j" by simp
    with e sp tr' show ?thesis by simp
  qed
  have 3: "end_span demo_tracer [] 0 (JStr ''a'') 6
       = Inr (\<lparr>tracer_id = ''trace_1'', spans = [demo_done ''plan'' 4 6 ''a'', demo_running ''act'' 5]\<rparr>,
              [demo_done ''plan'' 4 6 ''a''])"
    by (subst ended[of 0 0]) (simp_all add: i n, simp add: demo_tracer_def demo_running_def demo_done_def)
  have 4: "end_span demo_tracer [] 1 (JStr ''a'') 6
       = Inr (\<lparr>tracer_id = ''trace_1'', spans = [demo_running ''plan'' 4, demo_done ''act'' 5 6 ''a'']\<rparr>,
              [demo_done ''act'' 5 6 ''a''])"
    by (subst ended[of 1 1]) (simp_all add: i n, simp add: demo_tracer_def demo_running_def demo_done_def)
  have 5: "end_span demo_tracer [] (-2) (JStr ''a'') 6
       = Inr (\<lparr>tracer_id = ''trace_1'', spans = [demo_done ''plan'' 4 6 ''a'', demo_running ''act'' 5]\<rparr>,
              [demo_done ''plan'' 4 6 ''a''])"
    by (subst ended[of "-2" 0]) (simp_all add: i n, simp add: demo_tracer_def demo_running_def demo_done_def)
  from i 1 2 3 4 5 show ?thesis by blast
qed

text \<open>
  Claim C9 as stated fails twice on a tracer with two spans, whose handles are 0 and 1: the
  handle \<open>-1\<close>, which \<open>start_span\<close> never returned, ends the span \<open>act\<close> without an error;
  and that span can then be ended again through its handle 1, which overwrites its end time
  and output and writes a second record.
\<close>

theorem tracer_unknown_handle_and_double_end:
  "start_span (Tracer ''trace_1'') ''plan'' (JStr ''q'') 4
     = (\<lparr>tracer_id = ''trace_1'', spans = [demo_running ''plan'' 4]\<rparr>, 0)
   \<and> start_span \<lparr>tracer_id = ''trace_1'', spans = [demo_running ''plan'' 4]\<rparr> ''act'' (JStr ''q'') 5
     = (demo_tracer, 1)
   \<and> end_span demo_tracer [] (-1) (JStr ''a'') 6
     = Inr (\<lparr>tracer_id = ''trace_1'', spans = [demo_running ''plan'' 4, demo_done ''act'' 5 6 ''a'']\<rparr>,
            [demo_done ''act'' 5 6 ''a''])
   \<and> end_span \<lparr>tracer_id = ''trace_1'', spans = [demo_running ''plan'' 4, demo_done ''act'' 5 6 ''a'']\<rparr>
        [demo_done ''act'' 5 6 ''a''] 1 (JStr ''b'') 7
     = Inr (\<lparr>tracer_id = ''trace_1'', spans = [demo_running ''plan'' 4, demo_done ''act'' 5 7 ''b'']\<rparr>,
            [demo_done ''act'' 5 6 ''a'', demo_done ''act'' 5 7 ''b''])"
  by (simp add: Tracer_def start_span_def end_span_def list_index_def demo_running_def
      demo_done_def demo_tracer_def Let_def)


section \<open>The tool-calling agent (\<open>smart_investor_local.py\<close>)\<close>

text \<open>The two tools and the registry \<open>tools\<close>, a dict from tool names to functions.\<close>

definition get_stock_price :: "string \<Rightarrow> string" where
  "get_stock_price ticker = ticker @ '' is currently trading at $215.40''"

definition get_news :: "string \<Rightarrow> string" where
  "get_news query =
     ''Recent news for '' @ query @ '': Analysts predict strong growth due to AI demand.''"

text \<open>
  A tool takes the text between the brackets and returns its observation, or raises: \<open>Inl e\<close>
  is an exception whose \<open>str()\<close> is \<open>e\<close>. The two registered tools never raise.
\<close>

type_synonym tool = "string \<Rightarrow> string + string"

definition tools :: "string \<rightharpoonup> tool" where
  "tools = map_of [(''get_stock_price'', \<lambda>ticker. Inr (get_stock_price ticker)),
                   (''get_news'', \<lambda>query. Inr (get_news query))]"

definition SYSTEM_PROMPT :: string where
  "SYSTEM_PROMPT =
     ''\<newline>You are a Financial Research Agent.\<newline>You run in a loop of Thought, Action, PAUSE, Observation.\<newline>At the end of the loop, output your Final Answer.\<newline>\<newline>Use Action: tool_name[input] to use a tool.\<newline>Available tools: get_stock_price, get_news.\<newline>\<newline>Example:\<newline>Thought: I need to check the price.\<newline>Action: get_stock_price[AAPL]\<newline>PAUSE\<newline>''"

text \<open>
  \<open>re.search(r"Action: (\w+)\[(.*)\]", agent_text)\<close>, written out. \<open>match_action\<close> matches at
  the start of its argument: the literal \<open>Action: \<close>, the longest run of word characters
  (it must be followed by \<open>[\<close>, so no shorter run can match), and the rest of the line up
  to its last \<open>]\<close> (the greedy \<open>.*\<close> does not cross a line feed). \<open>action_search\<close> tries
  each position from the left and returns the two groups of the first match.
\<close>

definition is_word :: "char \<Rightarrow> bool" where
  "is_word c =
     (c \<in> set ''abcdefghijklmnopqrstuvwxyzABCDEFGHIJKLMNOPQRSTUVWXYZ0123456789_'')"

definition match_action :: "string \<Rightarrow> (string \<times> string) option" where
  "match_action s =
     (if prefix ''Action: '' s
      then (let r = drop 8 s; name = takeWhile is_word r; r' = dropWhile is_word r
            in case r' of
                 [] \<Rightarrow> None
               | b # after \<Rightarrow>
                   (let line = takeWhile (\<lambda>c. c \<noteq> CHR 0x0A) after
                    in if name \<noteq> [] \<and> b = CHR ''['' \<and> CHR '']'' \<in> set line
                       then Some (name, rev (tl (dropWhile (\<lambda>c. c \<noteq> CHR '']'') (rev line))))
                       else None))
      else None)"

fun action_search :: "string \<Rightarrow> (string \<times> string) option" where
  "action_search [] = None"
| "action_search (c # cs) =
     (case match_action (c # cs) of
        Some groups \<Rightarrow> Some groups
      | None \<Rightarrow> action_search cs)"

text \<open>
  The block under \<open># Execute Tool\<close>: the observation for a parsed action. An unknown name
  and an exception of the tool both become an error text.
\<close>

definition observe :: "(string \<rightharpoonup> tool) \<Rightarrow> string \<Rightarrow> string \<Rightarrow> string" where
  "observe registry tool_name tool_input =
     (case registry tool_name of
        Some impl \<Rightarrow>
          (case impl tool_input of
             Inr observation \<Rightarrow> observation
           | Inl e \<Rightarrow> ''Error: '' @ e)
      | None \<Rightarrow> ''Error: Tool '' @ [CHR 0x27] @ tool_name @ [CHR 0x27] @ '' not found.'')"

text \<open>
  The loop \<open>for turn in range(5)\<close> with \<open>turns\<close> iterations left. The result is the value
  returned (\<open>None\<close> when the turns run out) and the transcript \<open>messages\<close>.
\<close>

fun run_turns ::
  "'s env \<Rightarrow> (string \<rightharpoonup> tool) \<Rightarrow> nat \<Rightarrow> (string \<times> json) list \<Rightarrow> 's
     \<Rightarrow> (error + (string option \<times> (string \<times> json) list)) \<times> 's" where
  "run_turns env registry 0 messages s = (Inr (None, messages), s)"
| "run_turns env registry (Suc turns) messages s =
     (case create env s ''gpt-4'' messages False of
        (Inl e, s') \<Rightarrow> (Inl e, s')
      | (Inr agent_text, s') \<Rightarrow>
          (let messages1 = messages @ [(''assistant'', JStr agent_text)]
           in if sublist ''Final Answer:'' agent_text then (Inr (Some agent_text, messages1), s')
              else (case action_search agent_text of
                      Some (tool_name, tool_input) \<Rightarrow>
                        run_turns env registry turns
                          (messages1 @
                           [(''user'', JStr (''Observation: '' @ observe registry tool_name tool_input))])
                          s'
                    | None \<Rightarrow> run_turns env registry turns messages1 s')))"

definition run_agent ::
  "'s env \<Rightarrow> 's \<Rightarrow> string \<Rightarrow> (error + (string option \<times> (string \<times> json) list)) \<times> 's" where
  "run_agent env s user_query =
     run_turns env tools 5 [(''system'', JStr SYSTEM_PROMPT), (''user'', JStr user_query)] s"

text \<open>A registry with a tool whose implementation raises, for the examples.\<close>

definition broken_registry :: "string \<rightharpoonup> tool" where
  "broken_registry = tools(''broken'' \<mapsto> (\<lambda>x. Inl ''connection timed out''))"

subsection \<open>Claim on tool errors\<close>

lemma run_turns_returns:
  "gateway_ok env \<Longrightarrow> \<exists>r msgs s'. run_turns env registry turns messages s = (Inr (r, msgs), s')"
proof (induction turns arbitrary: messages s)
  case 0
  show ?case by simp
next
  case (Suc turns)
  from Suc.prems obtain agent_text s' where
    c: "create env s ''gpt-4'' messages False = (Inr agent_text, s')"
    unfolding gateway_ok_def by blast
  show ?case
  proof (cases "sublist ''Final Answer:'' agent_text")
    case True
    with c show ?thesis by simp
  next
    case False
    show ?thesis
    proof (cases "action_search agent_text")
      case None
      with c False Suc.IH[OF Suc.prems] show ?thesis by simp
    next
      case (Some groups)
      obtain tool_name tool_input where "groups = (tool_name, tool_input)" by (cases groups)
      with Some c False Suc.IH[OF Suc.prems] show ?thesis by simp
    qed
  qed
qed

text \<open>
  Claim C8. In a turn whose response asks for a tool (and is not the final answer): when
  the tool name is not registered, the loop goes on with the transcript extended by the
  response and the observation \<open>Error: Tool '<name>' not found.\<close>; when the registered tool
  raises, it goes on with the observation \<open>Error: <message>\<close>. Neither aborts: as long as
  the provider answers, the loop returns a result, whatever the registry and the tools do.
\<close>

theorem tool_errors_become_observations:
  assumes "create env s ''gpt-4'' messages False = (Inr agent_text, s')"
    and "\<not> sublist ''Final Answer:'' agent_text"
    and "action_search agent_text = Some (tool_name, tool_input)"
  shows "(registry tool_name = None \<longrightarrow>
            run_turns env registry (Suc turns) messages s =
            run_turns env registry turns
              (messages @ [(''assistant'', JStr agent_text),
                 (''user'', JStr (''Observation: Error: Tool '' @ [CHR 0x27] @ tool_name
                                  @ [CHR 0x27] @ '' not found.''))]) s')
       \<and> (\<forall>impl e. registry tool_name = Some impl \<and> impl tool_input = Inl e \<longrightarrow>
            run_turns env registry (Suc turns) messages s =
            run_turns env registry turns
              (messages @ [(''assistant'', JStr agent_text),
                 (''user'', JStr (''Observation: Error: '' @ e))]) s')
       \<and> (gateway_ok env \<longrightarrow>
            (\<exists>r msgs s''. run_turns env registry (Suc turns) messages s = (Inr (r, msgs), s'')))"
  using assms run_turns_returns[of env registry "Suc turns" messages s]
  by (simp add: observe_def)

theorem tool_errors_become_observations_witness:
  "run_turns scripted_env broken_registry 5 [(''user'', JStr ''q'')]
      [''Action: lookup[NVDA]'', ''Action: broken[NVDA]'', ''Final Answer: hold'']
   = (Inr (Some ''Final Answer: hold'',
           [(''user'', JStr ''q''),
            (''assistant'', JStr ''Action: lookup[NVDA]''),
            (''user'', JStr (''Observation: Error: Tool '' @ [CHR 0x27] @ ''lookup'' @ [CHR 0x27]
                             @ '' not found.'')),
            (''assistant'', JStr ''Action: broken[NVDA]''),
            (''user'', JStr ''Observation: Error: connection timed out''),
            (''assistant'', JStr ''Final Answer: hold'')]), [])"
proof -
  have c: "create scripted_env (r # rs) model msgs json_mode = (Inr r, rs)"
    for r rs model msgs json_mode
    by (simp add: scripted_env_def scripted_def)
  have a1: "action_search ''Action: lookup[NVDA]'' = Some (''lookup'', ''NVDA'')"
    by (simp add: match_action_def is_word_def)
  have a2: "action_search ''Action: broken[NVDA]'' = Some (''broken'', ''NVDA'')"
    by (simp add: match_action_def is_word_def)
  have n1: "\<not> sublist ''Final Answer:'' ''Action: lookup[NVDA]''"
    by (simp add: sublist_code(3))
  have n2: "\<not> sublist ''Final Answer:'' ''Action: broken[NVDA]''"
    by (simp add: sublist_code(3))
  have r1: "broken_registry ''lookup'' = None"
    by (simp add: broken_registry_def tools_def)
  have r2: "broken_registry ''broken'' = Some (\<lambda>x. Inl ''connection timed out'')"
    by (simp add: broken_registry_def)
  note t1 = tool_errors_become_observations[OF c n1 a1, of broken_registry 4, THEN conjunct1]
  note t2 = tool_errors_become_observations[OF c n2 a2, of broken_registry 3,
      THEN conjunct2, THEN conjunct1]
  have 5: "(5::nat) = Suc 4" and 4: "(4::nat) = Suc 3" by simp_all
  show ?thesis
    apply (subst 5)
    apply (subst t1[rule_format, OF r1])
    apply (subst 4)
    apply (subst t2[rule_format, of "\<lambda>x. Inl ''connection timed out''" "''connection timed out''"])
     apply (simp add: r2)
    apply (simp add: c numeral_3_eq_3 sublist_code(3))
    done
qed


section \<open>Scatter-Gather\<close>

text \<open>
  \<open>asyncio.gather(t0, t1, ...)\<close> runs the awaitables concurrently, waits for all of them and
  returns their results in the order of the awaitables. Here an awaitable is one provider
  call, which takes effect at the moment it completes, and \<open>order\<close> is the order in which
  the scheduler lets the awaitables complete: \<open>complete\<close> runs them in that order and stores
  each result in the slot of its awaitable. An index that names no awaitable or one that is
  already done is skipped, and the awaitables that \<open>order\<close> leaves out complete last, in
  launch order, so every slot is filled. The first failure is raised to the caller.
\<close>

type_synonym ('s, 'a) task = "'s \<Rightarrow> (error + 'a) \<times> 's"

fun complete ::
  "('s, 'a) task list \<Rightarrow> nat list \<Rightarrow> 'a option list \<Rightarrow> 's \<Rightarrow> error + ('a option list \<times> 's)" where
  "complete aws [] slots s = Inr (slots, s)"
| "complete aws (i # order) slots s =
     (if i < length aws \<and> i < length slots \<and> slots ! i = None
      then (case (aws ! i) s of
              (Inl e, _) \<Rightarrow> Inl e
            | (Inr r, s') \<Rightarrow> complete aws order (slots[i := Some r]) s')
      else complete aws order slots s)"

definition gather :: "('s, 'a) task list \<Rightarrow> nat list \<Rightarrow> 's \<Rightarrow> error + ('a list \<times> 's)" where
  "gather aws order s =
     (case complete aws (order @ [0 ..< length aws]) (replicate (length aws) None) s of
        Inl e \<Rightarrow> Inl e
      | Inr (slots, s') \<Rightarrow> Inr (List.map_filter id slots, s'))"

subsection \<open>\<open>pattern_parallelization\<close> of \<open>week2/agenticpatterns.py\<close>\<close>

definition topic :: string where
  "topic = ''The Future of AI in 2030''"

definition parallel_tasks :: "'s env \<Rightarrow> ('s, string) task list" where
  "parallel_tasks env =
     [\<lambda>s. call_llm env s ''You are an Optimist.'' (JStr (''Write 1 sentence on '' @ topic @ ''.'')) False,
      \<lambda>s. call_llm env s ''You are a Pessimist.'' (JStr (''Write 1 sentence on '' @ topic @ ''.'')) False,
      \<lambda>s. call_llm env s ''You are a Realist.'' (JStr (''Write 1 sentence on '' @ topic @ ''.'')) False]"

definition synthesizer_system :: string where
  "synthesizer_system = ''You are a Synthesizer. Combine these views into a balanced conclusion.''"

text \<open>
  The locals \<open>combined_input\<close> and \<open>final_summary\<close> at the end; the function returns \<open>None\<close>.
  \<open>results[0]\<close>, \<open>results[1]\<close> and \<open>results[2]\<close> are read off the list that \<open>gather\<close>
  returns, the f-string puts them after their labels; a list of another length, which
  \<open>gather\<close> on three awaitables never returns, is an IndexError here.
\<close>

record parallel_state =
  combined_input :: string
  final_summary :: string

definition pattern_parallelization ::
  "'s env \<Rightarrow> nat list \<Rightarrow> 's \<Rightarrow> error + (parallel_state \<times> 's)" where
  "pattern_parallelization env order s =
     (case gather (parallel_tasks env) order s of
        Inl e \<Rightarrow> Inl e
      | Inr (rs, s1) \<Rightarrow>
          (case rs of
             [r0, r1, r2] \<Rightarrow>
               (let combined =
                      ''Optimist: '' @ r0 @ newline @ ''Pessimist: '' @ r1 @ newline
                      @ ''Realist: '' @ r2
                in case call_llm env s1 synthesizer_system (JStr combined) False of
                     (Inl e, _) \<Rightarrow> Inl e
                   | (Inr summary, s2) \<Rightarrow>
                       Inr (\<lparr>combined_input = combined, final_summary = summary\<rparr>, s2))
           | _ \<Rightarrow> Inl IndexError))"

subsection \<open>\<open>run_consensus\<close> of \<open>parallel_consensus.py\<close>\<close>

definition ask_agent :: "'s env \<Rightarrow> string \<Rightarrow> string \<Rightarrow> ('s, string) task" where
  "ask_agent env name prompt s =
     (case create env s ''gpt-4'' [(''user'', JStr prompt)] False of
        (Inl e, s') \<Rightarrow> (Inl e, s')
      | (Inr content, s') \<Rightarrow> (Inr (name @ '': '' @ content), s'))"

definition consensus_prompt :: "string \<Rightarrow> string" where
  "consensus_prompt tp = ''Provide a brief, 1-sentence interesting fact about: '' @ tp"

definition consensus_tasks :: "'s env \<Rightarrow> string \<Rightarrow> ('s, string) task list" where
  "consensus_tasks env tp =
     [ask_agent env ''Agent A'' (consensus_prompt tp),
      ask_agent env ''Agent B'' (consensus_prompt tp),
      ask_agent env ''Agent C'' (consensus_prompt tp)]"

definition judge_system :: string where
  "judge_system = ''You are a Judge. Synthesize the following 3 facts into one definitive truth.''"

text \<open>
  \<open>run_consensus\<close> also returns \<open>None\<close>; the model gives \<open>combined_text\<close> and the judge's
  verdict, which it prints.
\<close>

definition run_consensus ::
  "'s env \<Rightarrow> nat list \<Rightarrow> 's \<Rightarrow> string \<Rightarrow> error + ((string \<times> string) \<times> 's)" where
  "run_consensus env order s tp =
     (case gather (consensus_tasks env tp) order s of
        Inl e \<Rightarrow> Inl e
      | Inr (rs, s1) \<Rightarrow>
          (let combined_text = join newline rs
           in case create env s1 ''gpt-4''
                     [(''system'', JStr judge_system), (''user'', JStr combined_text)] False of
                (Inl e, _) \<Rightarrow> Inl e
              | (Inr final_verdict, s2) \<Rightarrow> Inr ((combined_text, final_verdict), s2)))"

text \<open>The combined text with the three facts in the order A, B, C.\<close>

definition agents_a_b_c :: "string \<Rightarrow> string \<Rightarrow> string \<Rightarrow> string" where
  "agents_a_b_c a b c =
     ''Agent A: '' @ a @ newline @ ''Agent B: '' @ b @ newline @ ''Agent C: '' @ c"

text \<open>
  The synthesis input that the specification asks for: the three labelled views, the
  Optimist's (launched first), then the Pessimist's, then the Realist's.
\<close>

definition views_in_launch_order :: "string \<Rightarrow> string \<Rightarrow> string \<Rightarrow> string" where
  "views_in_launch_order a b c =
     ''Optimist: '' @ a @ newline @ ''Pessimist: '' @ b @ newline @ ''Realist: '' @ c"

subsection \<open>Results land at the launch position\<close>

lemma perm3:
  assumes "i < (3::nat)" "j < 3" "k < 3" "distinct [i, j, k]"
  shows "(i = 0 \<and> j = 1 \<and> k = 2) \<or> (i = 0 \<and> j = 2 \<and> k = 1)
    \<or> (i = 1 \<and> j = 0 \<and> k = 2) \<or> (i = 1 \<and> j = 2 \<and> k = 0)
    \<or> (i = 2 \<and> j = 0 \<and> k = 1) \<or> (i = 2 \<and> j = 1 \<and> k = 0)"
proof -
  have i: "i = 0 \<or> i = 1 \<or> i = 2" using assms(1) by arith
  have j: "j = 0 \<or> j = 1 \<or> j = 2" using assms(2) by arith
  have k: "k = 0 \<or> k = 1 \<or> k = 2" using assms(3) by arith
  from i j k assms(4) show ?thesis by auto
qed

lemma gather3:
  assumes "length aws = 3" "i < 3" "j < 3" "k < 3" "distinct [i, j, k]"
    and "(aws ! i) s = (Inr ri, s1)" and "(aws ! j) s1 = (Inr rj, s2)"
    and "(aws ! k) s2 = (Inr rk, s3)"
  shows "\<exists>rs. gather aws [i, j, k] s = Inr (rs, s3) \<and> length rs = 3
           \<and> rs ! i = ri \<and> rs ! j = rj \<and> rs ! k = rk"
proof -
  have u: "[0 ..< 3] = [0, Suc 0, Suc (Suc 0)]"
    by (simp add: numeral_3_eq_3 upt_conv_Cons)
  have r: "replicate 3 x = [x, x, x]" for x :: "'b option"
    by (simp add: numeral_3_eq_3)
  from perm3[OF assms(2-5)]
  consider "i = 0 \<and> j = 1 \<and> k = 2" | "i = 0 \<and> j = 2 \<and> k = 1"
    | "i = 1 \<and> j = 0 \<and> k = 2" | "i = 1 \<and> j = 2 \<and> k = 0"
    | "i = 2 \<and> j = 0 \<and> k = 1" | "i = 2 \<and> j = 1 \<and> k = 0"
    by blast
  then show ?thesis
  proof cases
    case 1
    with assms(1,6-8) show ?thesis
      by (simp add: gather_def u r numeral_2_eq_2)
  next
    case 2
    with assms(1,6-8) show ?thesis
      by (simp add: gather_def u r numeral_2_eq_2)
  next
    case 3
    with assms(1,6-8) show ?thesis
      by (simp add: gather_def u r numeral_2_eq_2)
  next
    case 4
    with assms(1,6-8) show ?thesis
      by (simp add: gather_def u r numeral_2_eq_2)
  next
    case 5
    with assms(1,6-8) show ?thesis
      by (simp add: gather_def u r numeral_2_eq_2)
  next
    case 6
    with assms(1,6-8) show ?thesis
      by (simp add: gather_def u r numeral_2_eq_2)
  qed
qed


lemma slots3:
  assumes "length rs = 3" "i < 3" "j < 3" "k < 3" "distinct [i, j, k]"
    and "rs ! i = f i ri" and "rs ! j = f j rj" and "rs ! k = f k rk"
  shows "\<exists>texts. length texts = 3 \<and> texts ! i = ri \<and> texts ! j = rj \<and> texts ! k = rk
           \<and> rs = [f 0 (texts ! 0), f 1 (texts ! 1), f 2 (texts ! 2)]"
proof -
  from assms(1) obtain a b c where rs: "rs = [a, b, c]"
    by (cases rs; cases "tl rs"; cases "tl (tl rs)") auto
  from perm3[OF assms(2-5)]
  consider "i = 0 \<and> j = 1 \<and> k = 2" | "i = 0 \<and> j = 2 \<and> k = 1"
    | "i = 1 \<and> j = 0 \<and> k = 2" | "i = 1 \<and> j = 2 \<and> k = 0"
    | "i = 2 \<and> j = 0 \<and> k = 1" | "i = 2 \<and> j = 1 \<and> k = 0"
    by blast
  then show ?thesis
  proof cases
    case 1
    with assms(6-8) rs show ?thesis
      by (intro exI[of _ "[ri, rj, rk]"]) (simp add: numeral_2_eq_2)
  next
    case 2
    with assms(6-8) rs show ?thesis
      by (intro exI[of _ "[ri, rk, rj]"]) (simp add: numeral_2_eq_2)
  next
    case 3
    with assms(6-8) rs show ?thesis
      by (intro exI[of _ "[rj, ri, rk]"]) (simp add: numeral_2_eq_2)
  next
    case 4
    with assms(6-8) rs show ?thesis
      by (intro exI[of _ "[rk, ri, rj]"]) (simp add: numeral_2_eq_2)
  next
    case 5
    with assms(6-8) rs show ?thesis
      by (intro exI[of _ "[rj, rk, ri]"]) (simp add: numeral_2_eq_2)
  next
    case 6
    with assms(6-8) rs show ?thesis
      by (intro exI[of _ "[rk, rj, ri]"]) (simp add: numeral_2_eq_2)
  qed
qed

lemma parallel_launch_order:
  assumes "i < 3" "j < 3" "k < 3" "distinct [i, j, k]"
    and "(parallel_tasks env ! i) s = (Inr ri, s1)"
    and "(parallel_tasks env ! j) s1 = (Inr rj, s2)"
    and "(parallel_tasks env ! k) s2 = (Inr rk, s3)"
  shows "\<exists>texts. length texts = 3 \<and> texts ! i = ri \<and> texts ! j = rj \<and> texts ! k = rk
     \<and> pattern_parallelization env [i, j, k] s =
         (case call_llm env s3 synthesizer_system
                 (JStr (views_in_launch_order (texts ! 0) (texts ! 1) (texts ! 2))) False of
            (Inl e, _) \<Rightarrow> Inl e
          | (Inr summary, s4) \<Rightarrow>
              Inr (\<lparr>combined_input = views_in_launch_order (texts ! 0) (texts ! 1) (texts ! 2),
                    final_summary = summary\<rparr>, s4))"
proof -
  have l: "length (parallel_tasks env) = 3" by (simp add: parallel_tasks_def)
  from gather3[OF l assms] obtain rs where
    g: "gather (parallel_tasks env) [i, j, k] s = Inr (rs, s3)" and
    rs: "length rs = 3" "rs ! i = ri" "rs ! j = rj" "rs ! k = rk" by blast
  from slots3[OF rs(1) assms(1-4), of "\<lambda>n x. x", OF rs(2-4)] obtain texts where
    t: "length texts = 3" "texts ! i = ri" "texts ! j = rj" "texts ! k = rk"
       "rs = [texts ! 0, texts ! 1, texts ! 2]" by blast
  have "pattern_parallelization env [i, j, k] s =
         (case call_llm env s3 synthesizer_system
                 (JStr (views_in_launch_order (texts ! 0) (texts ! 1) (texts ! 2))) False of
            (Inl e, _) \<Rightarrow> Inl e
          | (Inr summary, s4) \<Rightarrow>
              Inr (\<lparr>combined_input = views_in_launch_order (texts ! 0) (texts ! 1) (texts ! 2),
                    final_summary = summary\<rparr>, s4))"
    unfolding pattern_parallelization_def g
    by (subst t(5)) (simp add: Let_def views_in_launch_order_def split: prod.splits sum.splits)
  with t show ?thesis by blast
qed


lemma consensus_launch_order:
  assumes "i < 3" "j < 3" "k < 3" "distinct [i, j, k]"
    and "create env s ''gpt-4'' [(''user'', JStr (consensus_prompt tp))] False = (Inr ci, s1)"
    and "create env s1 ''gpt-4'' [(''user'', JStr (consensus_prompt tp))] False = (Inr cj, s2)"
    and "create env s2 ''gpt-4'' [(''user'', JStr (consensus_prompt tp))] False = (Inr ck, s3)"
  shows "\<exists>texts. length texts = 3 \<and> texts ! i = ci \<and> texts ! j = cj \<and> texts ! k = ck
     \<and> run_consensus env [i, j, k] s tp =
         (case create env s3 ''gpt-4''
                 [(''system'', JStr judge_system),
                  (''user'', JStr (agents_a_b_c (texts ! 0) (texts ! 1) (texts ! 2)))] False of
            (Inl e, _) \<Rightarrow> Inl e
          | (Inr final_verdict, s4) \<Rightarrow>
              Inr ((agents_a_b_c (texts ! 0) (texts ! 1) (texts ! 2), final_verdict), s4))"
proof -
  let ?name = "\<lambda>n::nat. [''Agent A'', ''Agent B'', ''Agent C''] ! n"
  let ?f = "\<lambda>n c. ?name n @ '': '' @ c"
  have l: "length (consensus_tasks env tp) = 3" by (simp add: consensus_tasks_def)
  have task: "(consensus_tasks env tp ! n) = ask_agent env (?name n) (consensus_prompt tp)"
    if "n < 3" for n
  proof -
    from that have "n = 0 \<or> n = 1 \<or> n = 2" by arith
    then show ?thesis by (auto simp: consensus_tasks_def numeral_2_eq_2)
  qed
  have ti: "(consensus_tasks env tp ! i) s = (Inr (?f i ci), s1)"
    by (simp only: task[OF assms(1)] ask_agent_def assms(5) prod.case sum.case)
  have tj: "(consensus_tasks env tp ! j) s1 = (Inr (?f j cj), s2)"
    by (simp only: task[OF assms(2)] ask_agent_def assms(6) prod.case sum.case)
  have tk: "(consensus_tasks env tp ! k) s2 = (Inr (?f k ck), s3)"
    by (simp only: task[OF assms(3)] ask_agent_def assms(7) prod.case sum.case)
  from gather3[OF l assms(1-4) ti tj tk] obtain rs where
    g: "gather (consensus_tasks env tp) [i, j, k] s = Inr (rs, s3)" and
    rs: "length rs = 3" "rs ! i = ?f i ci" "rs ! j = ?f j cj" "rs ! k = ?f k ck" by blast
  from slots3[OF rs(1) assms(1-4), of ?f, OF rs(2-4)] obtain texts where
    t: "length texts = 3" "texts ! i = ci" "texts ! j = cj" "texts ! k = ck"
       "rs = [?f 0 (texts ! 0), ?f 1 (texts ! 1), ?f 2 (texts ! 2)]" by blast
  have j: "join newline rs = agents_a_b_c (texts ! 0) (texts ! 1) (texts ! 2)"
    by (subst t(5)) (simp add: agents_a_b_c_def)
  have "run_consensus env [i, j, k] s tp =
         (case create env s3 ''gpt-4''
                 [(''system'', JStr judge_system),
                  (''user'', JStr (agents_a_b_c (texts ! 0) (texts ! 1) (texts ! 2)))] False of
            (Inl e, _) \<Rightarrow> Inl e
          | (Inr final_verdict, s4) \<Rightarrow>
              Inr ((agents_a_b_c (texts ! 0) (texts ! 1) (texts ! 2), final_verdict), s4))"
    unfolding run_consensus_def g by (simp add: j Let_def split: prod.splits sum.splits)
  with t show ?thesis by blast
qed

subsection \<open>Claim on the order of the synthesis input\<close>

text \<open>
  Claim C4. Let the three branches complete in any order \<open>i, j, k\<close> (a permutation of the
  launch positions 0, 1, 2), the provider answering \<open>ri\<close> to the branch that completes first,
  then \<open>rj\<close>, then \<open>rk\<close>. The synthesis input is built from a list \<open>texts\<close> that holds each
  answer at the launch position of its branch: the text of the first branch launched
  comes first, then the second, then the third, whatever the completion order. For
  \<open>pattern_parallelization\<close> the input of the synthesis call, and the local
  \<open>combined_input\<close>, is the text \<open>Optimist: \<close>\<open>texts[0]\<close>, a newline, \<open>Pessimist: \<close>\<open>texts[1]\<close>,
  a newline, \<open>Realist: \<close>\<open>texts[2]\<close>; for \<open>run_consensus\<close> it is the three lines
  \<open>Agent A: \<close>\<open>texts[0]\<close>, \<open>Agent B: \<close>\<open>texts[1]\<close>, \<open>Agent C: \<close>\<open>texts[2]\<close>.
\<close>

theorem scatter_gather_launch_order:
  assumes "i < 3" "j < 3" "k < 3" "distinct [i, j, k]"
  shows "((parallel_tasks env ! i) s = (Inr ri, s1) \<and> (parallel_tasks env ! j) s1 = (Inr rj, s2)
          \<and> (parallel_tasks env ! k) s2 = (Inr rk, s3) \<longrightarrow>
          (\<exists>texts. length texts = 3 \<and> texts ! i = ri \<and> texts ! j = rj \<and> texts ! k = rk
             \<and> pattern_parallelization env [i, j, k] s =
                 (case call_llm env s3 synthesizer_system
                         (JStr (''Optimist: '' @ texts ! 0 @ newline @ ''Pessimist: '' @ texts ! 1
                                @ newline @ ''Realist: '' @ texts ! 2)) False of
                    (Inl e, _) \<Rightarrow> Inl e
                  | (Inr summary, s4) \<Rightarrow>
                      Inr (\<lparr>combined_input =
                              ''Optimist: '' @ texts ! 0 @ newline @ ''Pessimist: '' @ texts ! 1
                              @ newline @ ''Realist: '' @ texts ! 2,
                            final_summary = summary\<rparr>, s4))))
       \<and> (create env s ''gpt-4'' [(''user'', JStr (consensus_prompt tp))] False = (Inr ri, s1)
          \<and> create env s1 ''gpt-4'' [(''user'', JStr (consensus_prompt tp))] False = (Inr rj, s2)
          \<and> create env s2 ''gpt-4'' [(''user'', JStr (consensus_prompt tp))] False = (Inr rk, s3) \<longrightarrow>
          (\<exists>texts. length texts = 3 \<and> texts ! i = ri \<and> texts ! j = rj \<and> texts ! k = rk
             \<and> run_consensus env [i, j, k] s tp =
                 (case create env s3 ''gpt-4''
                         [(''system'', JStr judge_system),
                          (''user'', JStr (agents_a_b_c (texts ! 0) (texts ! 1) (texts ! 2)))] False of
                    (Inl e, _) \<Rightarrow> Inl e
                  | (Inr final_verdict, s4) \<Rightarrow>
                      Inr ((agents_a_b_c (texts ! 0) (texts ! 1) (texts ! 2), final_verdict), s4))))"
proof (intro conjI impI)
  assume "(parallel_tasks env ! i) s = (Inr ri, s1) \<and> (parallel_tasks env ! j) s1 = (Inr rj, s2)
          \<and> (parallel_tasks env ! k) s2 = (Inr rk, s3)"
  then show "\<exists>texts. length texts = 3 \<and> texts ! i = ri \<and> texts ! j = rj \<and> texts ! k = rk
             \<and> pattern_parallelization env [i, j, k] s =
                 (case call_llm env s3 synthesizer_system
                         (JStr (''Optimist: '' @ texts ! 0 @ newline @ ''Pessimist: '' @ texts ! 1
                                @ newline @ ''Realist: '' @ texts ! 2)) False of
                    (Inl e, _) \<Rightarrow> Inl e
                  | (Inr summary, s4) \<Rightarrow>
                      Inr (\<lparr>combined_input =
                              ''Optimist: '' @ texts ! 0 @ newline @ ''Pessimist: '' @ texts ! 1
                              @ newline @ ''Realist: '' @ texts ! 2,
                            final_summary = summary\<rparr>, s4))"
    by (elim conjE) (rule parallel_launch_order[OF assms, unfolded views_in_launch_order_def])
next
  assume "create env s ''gpt-4'' [(''user'', JStr (consensus_prompt tp))] False = (Inr ri, s1)
          \<and> create env s1 ''gpt-4'' [(''user'', JStr (consensus_prompt tp))] False = (Inr rj, s2)
          \<and> create env s2 ''gpt-4'' [(''user'', JStr (consensus_prompt tp))] False = (Inr rk, s3)"
  then show "\<exists>texts. length texts = 3 \<and> texts ! i = ri \<and> texts ! j = rj \<and> texts ! k = rk
             \<and> run_consensus env [i, j, k] s tp =
                 (case create env s3 ''gpt-4''
                         [(''system'', JStr judge_system),
                          (''user'', JStr (agents_a_b_c (texts ! 0) (texts ! 1) (texts ! 2)))] False of
                    (Inl e, _) \<Rightarrow> Inl e
                  | (Inr final_verdict, s4) \<Rightarrow>
                      Inr ((agents_a_b_c (texts ! 0) (texts ! 1) (texts ! 2), final_verdict), s4))"
    by (elim conjE) (rule consensus_launch_order[OF assms])
qed

theorem scatter_gather_launch_order_witness:
  "run_consensus scripted_env [2, 1, 0] [''fact from C'', ''fact from B'', ''fact from A'', ''truth'']
      ''Python''
     = Inr ((agents_a_b_c ''fact from A'' ''fact from B'' ''fact from C'', ''truth''), [])
   \<and> pattern_parallelization scripted_env [2, 1, 0]
        [''realist view'', ''pessimist view'', ''optimist view'', ''balance'']
     = Inr (\<lparr>combined_input =
               ''Optimist: '' @ ''optimist view'' @ newline @ ''Pessimist: '' @ ''pessimist view''
               @ newline @ ''Realist: '' @ ''realist view'',
             final_summary = ''balance''\<rparr>, [])"
proof -
  have c: "create scripted_env (r # rs) model msgs json_mode = (Inr r, rs)"
    for r rs model msgs json_mode
    by (simp add: scripted_env_def scripted_def)
  have l: "call_llm scripted_env (r # rs) system user json_mode = (Inr r, rs)"
    for r rs system user json_mode
    by (simp add: call_llm_def scripted_env_def scripted_def)
  have p: "(parallel_tasks scripted_env ! n) (r # rs) = (Inr r, rs)" if "n < 3" for n r rs
  proof -
    from that have "n = 0 \<or> n = 1 \<or> n = 2" by arith
    then show ?thesis by (auto simp: parallel_tasks_def l numeral_2_eq_2)
  qed
  have h: "(2::nat) < 3" "(1::nat) < 3" "(0::nat) < 3" "distinct [2::nat, 1, 0]" by simp_all
  have "\<exists>texts. length texts = 3 \<and> texts ! 2 = ''fact from C'' \<and> texts ! 1 = ''fact from B''
          \<and> texts ! 0 = ''fact from A''
          \<and> run_consensus scripted_env [2, 1, 0]
               [''fact from C'', ''fact from B'', ''fact from A'', ''truth''] ''Python'' =
              (case create scripted_env [''truth''] ''gpt-4''
                      [(''system'', JStr judge_system),
                       (''user'', JStr (agents_a_b_c (texts ! 0) (texts ! 1) (texts ! 2)))] False of
                 (Inl e, _) \<Rightarrow> Inl e
               | (Inr final_verdict, s4) \<Rightarrow>
                   Inr ((agents_a_b_c (texts ! 0) (texts ! 1) (texts ! 2), final_verdict), s4))"
    by (rule scatter_gather_launch_order[OF h, THEN conjunct2, rule_format]) (intro conjI; rule c)
  then obtain texts where t: "texts ! 2 = ''fact from C''" "texts ! 1 = ''fact from B''"
      "texts ! 0 = ''fact from A''"
    and r: "run_consensus scripted_env [2, 1, 0]
               [''fact from C'', ''fact from B'', ''fact from A'', ''truth''] ''Python'' =
              (case create scripted_env [''truth''] ''gpt-4''
                      [(''system'', JStr judge_system),
                       (''user'', JStr (agents_a_b_c (texts ! 0) (texts ! 1) (texts ! 2)))] False of
                 (Inl e, _) \<Rightarrow> Inl e
               | (Inr final_verdict, s4) \<Rightarrow>
                   Inr ((agents_a_b_c (texts ! 0) (texts ! 1) (texts ! 2), final_verdict), s4))"
    by (elim exE conjE)
  have A: "run_consensus scripted_env [2, 1, 0]
      [''fact from C'', ''fact from B'', ''fact from A'', ''truth''] ''Python''
     = Inr ((agents_a_b_c ''fact from A'' ''fact from B'' ''fact from C'', ''truth''), [])"
    by (simp only: r t c prod.case sum.case)
  have "\<exists>texts. length texts = 3 \<and> texts ! 2 = ''realist view'' \<and> texts ! 1 = ''pessimist view''
          \<and> texts ! 0 = ''optimist view''
          \<and> pattern_parallelization scripted_env [2, 1, 0]
               [''realist view'', ''pessimist view'', ''optimist view'', ''balance''] =
              (case call_llm scripted_env [''balance''] synthesizer_system
                      (JStr (''Optimist: '' @ texts ! 0 @ newline @ ''Pessimist: '' @ texts ! 1
                             @ newline @ ''Realist: '' @ texts ! 2)) False of
                 (Inl e, _) \<Rightarrow> Inl e
               | (Inr summary, s4) \<Rightarrow>
                   Inr (\<lparr>combined_input =
                           ''Optimist: '' @ texts ! 0 @ newline @ ''Pessimist: '' @ texts ! 1
                           @ newline @ ''Realist: '' @ texts ! 2,
                         final_summary = summary\<rparr>, s4))"
    by (rule scatter_gather_launch_order[OF h, THEN conjunct1, rule_format]) (intro conjI; rule p; simp)
  then obtain views where v: "views ! 2 = ''realist view''" "views ! 1 = ''pessimist view''"
      "views ! 0 = ''optimist view''"
    and q: "pattern_parallelization scripted_env [2, 1, 0]
               [''realist view'', ''pessimist view'', ''optimist view'', ''balance''] =
              (case call_llm scripted_env [''balance''] synthesizer_system
                      (JStr (''Optimist: '' @ views ! 0 @ newline @ ''Pessimist: '' @ views ! 1
                             @ newline @ ''Realist: '' @ views ! 2)) False of
                 (Inl e, _) \<Rightarrow> Inl e
               | (Inr summary, s4) \<Rightarrow>
                   Inr (\<lparr>combined_input =
                           ''Optimist: '' @ views ! 0 @ newline @ ''Pessimist: '' @ views ! 1
                           @ newline @ ''Realist: '' @ views ! 2,
                         final_summary = summary\<rparr>, s4))"
    by (elim exE conjE)
  have B: "pattern_parallelization scripted_env [2, 1, 0]
        [''realist view'', ''pessimist view'', ''optimist view'', ''balance'']
     = Inr (\<lparr>combined_input =
               ''Optimist: '' @ ''optimist view'' @ newline @ ''Pessimist: '' @ ''pessimist view''
               @ newline @ ''Realist: '' @ ''realist view'',
             final_summary = ''balance''\<rparr>, [])"
    by (simp only: q v l prod.case sum.case)
  from A B show ?thesis by (rule conjI)
qed

section \<open>Regular expressions of the guardrails\<close>

text \<open>
  The three patterns of the repository are sequences of character classes with a greedy
  repetition (\<open>+\<close>, \<open>?\<close>, \<open>{n}\<close>, \<open>{n,}\<close>), literal characters and the word boundary
  \<open>\b\<close>. \<open>Rep cls lo hi\<close> is the class \<open>cls\<close> repeated at least \<open>lo\<close> and at most \<open>hi\<close>
  times (\<open>None\<close>: no upper bound); a literal is a class of one character repeated once.
  Text is ASCII, so \<open>\w\<close> is \<open>is_word\<close> and \<open>\d\<close> is 0 to 9.
\<close>

datatype atom = Rep string nat "nat option" | Boundary

text \<open>
  The characters around a position: \<open>None\<close> is the start or the end of the text, which
  counts as a non-word character for \<open>\b\<close>. \<open>prev_after prev w\<close> is the character before the
  position reached by reading \<open>w\<close> from a position whose previous character is \<open>prev\<close>.
\<close>

definition is_word_opt :: "char option \<Rightarrow> bool" where
  "is_word_opt c = (case c of None \<Rightarrow> False | Some x \<Rightarrow> is_word x)"

definition head :: "string \<Rightarrow> char option" where
  "head s = (case s of [] \<Rightarrow> None | c # _ \<Rightarrow> Some c)"

definition prev_after :: "char option \<Rightarrow> string \<Rightarrow> char option" where
  "prev_after prev w = (if w = [] then prev else Some (last w))"

definition at_most :: "nat \<Rightarrow> nat option \<Rightarrow> bool" where
  "at_most k hi = (case hi of None \<Rightarrow> True | Some h \<Rightarrow> k \<le> h)"

text \<open>
  The backtracking matcher of \<open>re\<close>, on this fragment. A greedy repetition first takes as
  many characters as it can (\<open>kmax\<close>) and gives them back one at a time, down to \<open>lo\<close>,
  until the rest of the pattern matches: \<open>try_down f lo k\<close> tries the counts \<open>k\<close>, \<open>k - 1\<close>,
  ..., \<open>lo\<close> and returns the length of the first match found. \<open>match_at p prev s\<close> is the
  length of the match of \<open>p\<close> at the start of \<open>s\<close>, where \<open>prev\<close> is the character before.
\<close>

fun try_down :: "(nat \<Rightarrow> nat option) \<Rightarrow> nat \<Rightarrow> nat \<Rightarrow> nat option" where
  "try_down f lo 0 = (if 0 < lo then None else f 0)"
| "try_down f lo (Suc k) =
     (if Suc k < lo then None
      else (case f (Suc k) of
              Some n \<Rightarrow> Some (Suc k + n)
            | None \<Rightarrow> try_down f lo k))"

fun match_at :: "atom list \<Rightarrow> char option \<Rightarrow> string \<Rightarrow> nat option" where
  "match_at [] prev s = Some 0"
| "match_at (Boundary # p) prev s =
     (if is_word_opt prev \<noteq> is_word_opt (head s) then match_at p prev s else None)"
| "match_at (Rep cls lo hi # p) prev s =
     (let run = length (takeWhile (\<lambda>c. c \<in> set cls) s);
          kmax = (case hi of None \<Rightarrow> run | Some h \<Rightarrow> min run h)
      in try_down (\<lambda>k. match_at p (prev_after prev (take k s)) (drop k s)) lo kmax)"

text \<open>
  \<open>re.sub(pattern, repl, s)\<close> for a replacement without escapes: it scans from the left,
  replaces the match at the first position that has one, continues after the match, and
  copies a character where there is none. (After an empty match it copies one character
  and goes on; the patterns here never match the empty text.)
\<close>

function sub_from :: "atom list \<Rightarrow> string \<Rightarrow> char option \<Rightarrow> string \<Rightarrow> string" where
  "sub_from p repl prev [] = (case match_at p prev [] of None \<Rightarrow> [] | Some n \<Rightarrow> repl)"
| "sub_from p repl prev (c # cs) =
     (case match_at p prev (c # cs) of
        None \<Rightarrow> c # sub_from p repl (Some c) cs
      | Some 0 \<Rightarrow> repl @ c # sub_from p repl (Some c) cs
      | Some (Suc n) \<Rightarrow>
          repl @ sub_from p repl (Some (last (take (Suc n) (c # cs)))) (drop (Suc n) (c # cs)))"
  by pat_completeness auto
termination
  by (relation "measure (\<lambda>(p, repl, prev, s). length s)") auto

definition re_sub :: "atom list \<Rightarrow> string \<Rightarrow> string \<Rightarrow> string" where
  "re_sub p repl s = sub_from p repl None s"

text \<open>
  What it means for a piece \<open>w\<close> of a text to match the pattern, apart from any matching
  strategy: \<open>w\<close> splits into one run per repetition, each of allowed length and within
  its class, and each \<open>\b\<close> sits between a word and a non-word character. \<open>prev\<close> and
  \<open>nxt\<close> are the characters before and after \<open>w\<close>.
\<close>

fun accepts :: "atom list \<Rightarrow> char option \<Rightarrow> string \<Rightarrow> char option \<Rightarrow> bool" where
  "accepts [] prev w nxt = (w = [])"
| "accepts (Boundary # p) prev w nxt =
     (is_word_opt prev \<noteq> is_word_opt (case w of [] \<Rightarrow> nxt | c # _ \<Rightarrow> Some c)
      \<and> accepts p prev w nxt)"
| "accepts (Rep cls lo hi # p) prev w nxt =
     (\<exists>k \<le> length w. lo \<le> k \<and> at_most k hi \<and> set (take k w) \<subseteq> set cls
         \<and> accepts p (prev_after prev (take k w)) (drop k w) nxt)"

text \<open>
  \<open>occurs p prev t\<close>: some piece of \<open>t\<close> matches \<open>p\<close> in its place. \<open>search_from\<close> is
  \<open>re.search\<close>: whether the matcher succeeds at some position. \<open>sentinel mid\<close> is a
  replacement token in brackets.
\<close>

definition occurs :: "atom list \<Rightarrow> char option \<Rightarrow> string \<Rightarrow> bool" where
  "occurs p prev t = (\<exists>u w v. t = u @ w @ v \<and> accepts p (prev_after prev u) w (head v))"

fun search_from :: "atom list \<Rightarrow> char option \<Rightarrow> string \<Rightarrow> bool" where
  "search_from p prev [] = (match_at p prev [] \<noteq> None)"
| "search_from p prev (c # cs) = (match_at p prev (c # cs) \<noteq> None \<or> search_from p (Some c) cs)"

definition sentinel :: "string \<Rightarrow> string" where
  "sentinel mid = CHR ''['' # mid @ [CHR '']'']"

subsection \<open>The matcher finds a match exactly where one exists\<close>

lemma try_down_Some:
  "try_down f lo kmax = Some r \<Longrightarrow> \<exists>k n. lo \<le> k \<and> k \<le> kmax \<and> f k = Some n \<and> r = k + n"
proof (induction kmax)
  case 0
  then show ?case by (auto split: if_splits)
next
  case (Suc kmax)
  show ?case
  proof (cases "f (Suc kmax)")
    case None
    with Suc.prems have "try_down f lo kmax = Some r" by (auto split: if_splits)
    from Suc.IH[OF this] obtain k n where "lo \<le> k" "k \<le> kmax" "f k = Some n" "r = k + n"
      by blast
    then have "lo \<le> k \<and> k \<le> Suc kmax \<and> f k = Some n \<and> r = k + n" by simp
    then show ?thesis by blast
  next
    case (Some n)
    with Suc.prems have "lo \<le> Suc kmax \<and> Suc kmax \<le> Suc kmax \<and> f (Suc kmax) = Some n
      \<and> r = Suc kmax + n" by (auto split: if_splits)
    then show ?thesis by blast
  qed
qed

lemma try_down_None:
  "try_down f lo kmax = None \<Longrightarrow> lo \<le> k \<Longrightarrow> k \<le> kmax \<Longrightarrow> f k = None"
proof (induction kmax)
  case 0
  then show ?case by (auto split: if_splits)
next
  case (Suc kmax)
  show ?case
  proof (cases "k = Suc kmax")
    case True
    with Suc.prems show ?thesis by (auto split: if_splits option.splits)
  next
    case False
    with Suc.prems have "k \<le> kmax" "try_down f lo kmax = None"
      by (auto split: if_splits option.splits)
    with Suc.IH Suc.prems(2) show ?thesis by blast
  qed
qed

lemma run_bound:
  "k \<le> length s \<Longrightarrow> set (take k s) \<subseteq> A \<Longrightarrow> k \<le> length (takeWhile (\<lambda>c. c \<in> A) s)"
proof (induction s arbitrary: k)
  case Nil
  then show ?case by simp
next
  case (Cons c s)
  then show ?case by (cases k) auto
qed

lemma take_run:
  "k \<le> length (takeWhile P s) \<Longrightarrow> set (take k s) \<subseteq> {c. P c}"
proof (induction s arbitrary: k)
  case Nil
  then show ?case by simp
next
  case (Cons c s)
  then show ?case by (cases k) (auto split: if_splits)
qed

lemma head_append: "head (w @ v) = (case w of [] \<Rightarrow> head v | c # _ \<Rightarrow> Some c)"
  by (cases w) (simp_all add: head_def)

lemma match_at_sound:
  "match_at p prev s = Some n \<Longrightarrow>
     \<exists>w v. s = w @ v \<and> length w = n \<and> accepts p prev w (head v)"
proof (induction p arbitrary: prev s n)
  case Nil
  then show ?case by simp
next
  case (Cons a p)
  show ?case
  proof (cases a)
    case Boundary
    with Cons.prems have b: "is_word_opt prev \<noteq> is_word_opt (head s)"
      and m: "match_at p prev s = Some n" by (auto split: if_splits)
    from Cons.IH[OF m] obtain w v where wv: "s = w @ v" "length w = n" "accepts p prev w (head v)"
      by blast
    with b Boundary show ?thesis by (auto simp: head_append)
  next
    case (Rep cls lo hi)
    define run where "run = length (takeWhile (\<lambda>c. c \<in> set cls) s)"
    define kmax where "kmax = (case hi of None \<Rightarrow> length (takeWhile (\<lambda>c. c \<in> set cls) s)
                                | Some h \<Rightarrow> min (length (takeWhile (\<lambda>c. c \<in> set cls) s)) h)"
    from Cons.prems Rep have
      "try_down (\<lambda>k. match_at p (prev_after prev (take k s)) (drop k s)) lo kmax = Some n"
      by (simp add: Let_def kmax_def)
    from try_down_Some[OF this] obtain k n' where k: "lo \<le> k" "k \<le> kmax"
      and m: "match_at p (prev_after prev (take k s)) (drop k s) = Some n'" and n: "n = k + n'"
      by blast
    from k(2) have kr: "k \<le> run" and kh: "at_most k hi"
      by (auto simp: kmax_def run_def at_most_def split: option.splits)
    from kr have kl: "k \<le> length s"
      unfolding run_def using length_takeWhile_le[of "\<lambda>c. c \<in> set cls" s] by linarith
    from kr have cls: "set (take k s) \<subseteq> set cls"
      unfolding run_def using take_run[of k "\<lambda>c. c \<in> set cls" s] by auto
    from Cons.IH[OF m] obtain w v where wv: "drop k s = w @ v" "length w = n'"
      "accepts p (prev_after prev (take k s)) w (head v)" by blast
    have s: "s = (take k s @ w) @ v" using wv(1) by (metis append_assoc append_take_drop_id)
    have "accepts (Rep cls lo hi # p) prev (take k s @ w) (head v)"
      using k(1) kh cls wv(3) kl by (auto intro!: exI[of _ k])
    with s n wv(2) kl Rep show ?thesis
      by (intro exI[of _ "take k s @ w"] exI[of _ v]) auto
  qed
qed

lemma match_at_complete:
  "accepts p prev w (head v) \<Longrightarrow> match_at p prev (w @ v) \<noteq> None"
proof (induction p arbitrary: prev w)
  case Nil
  then show ?case by simp
next
  case (Cons a p)
  show ?case
  proof (cases a)
    case Boundary
    with Cons show ?thesis by (auto simp: head_append)
  next
    case (Rep cls lo hi)
    with Cons.prems obtain k where k: "k \<le> length w" "lo \<le> k" "at_most k hi"
      "set (take k w) \<subseteq> set cls" and a: "accepts p (prev_after prev (take k w)) (drop k w) (head v)"
      by auto
    define run where "run = length (takeWhile (\<lambda>c. c \<in> set cls) (w @ v))"
    define kmax where "kmax = (case hi of None \<Rightarrow> length (takeWhile (\<lambda>c. c \<in> set cls) (w @ v))
                                | Some h \<Rightarrow> min (length (takeWhile (\<lambda>c. c \<in> set cls) (w @ v))) h)"
    have "k \<le> run" unfolding run_def using k(1,4) by (intro run_bound) auto
    with k(3) have km: "k \<le> kmax"
      by (auto simp: kmax_def run_def at_most_def split: option.splits)
    from Cons.IH[OF a] k(1)
    have f: "(\<lambda>k. match_at p (prev_after prev (take k (w @ v))) (drop k (w @ v))) k \<noteq> None"
      by simp
    show ?thesis
    proof
      assume "match_at (a # p) prev (w @ v) = None"
      with Rep have
        "try_down (\<lambda>k. match_at p (prev_after prev (take k (w @ v))) (drop k (w @ v))) lo kmax = None"
        by (simp only: match_at.simps Let_def kmax_def)
      from try_down_None[OF this k(2) km] f show False by blast
    qed
  qed
qed

lemma prev_after_Cons: "prev_after prev (c # u) = prev_after (Some c) u"
  by (simp add: prev_after_def)

lemma prev_after_Nil [simp]: "prev_after prev [] = prev"
  by (simp add: prev_after_def)

lemma occurs_Nil: "occurs p prev [] = accepts p prev [] None"
  by (simp add: occurs_def head_def)

lemma occurs_Cons:
  "occurs p prev (c # cs) =
     ((\<exists>w v. c # cs = w @ v \<and> accepts p prev w (head v)) \<or> occurs p (Some c) cs)"
proof
  assume "occurs p prev (c # cs)"
  then obtain u w v where t: "c # cs = u @ w @ v" and a: "accepts p (prev_after prev u) w (head v)"
    unfolding occurs_def by blast
  show "(\<exists>w v. c # cs = w @ v \<and> accepts p prev w (head v)) \<or> occurs p (Some c) cs"
  proof (cases u)
    case Nil
    with t a show ?thesis by auto
  next
    case (Cons x u')
    with t a have "cs = u' @ w @ v" "accepts p (prev_after (Some c) u') w (head v)"
      by (auto simp: prev_after_Cons)
    then show ?thesis unfolding occurs_def by blast
  qed
next
  assume "(\<exists>w v. c # cs = w @ v \<and> accepts p prev w (head v)) \<or> occurs p (Some c) cs"
  then show "occurs p prev (c # cs)"
  proof
    assume "\<exists>w v. c # cs = w @ v \<and> accepts p prev w (head v)"
    then obtain w v where "c # cs = [] @ w @ v" "accepts p (prev_after prev []) w (head v)"
      by auto
    then show ?thesis unfolding occurs_def by blast
  next
    assume "occurs p (Some c) cs"
    then obtain u w v where "cs = u @ w @ v" "accepts p (prev_after (Some c) u) w (head v)"
      unfolding occurs_def by blast
    then have "c # cs = (c # u) @ w @ v" "accepts p (prev_after prev (c # u)) w (head v)"
      by (simp_all add: prev_after_Cons)
    then show ?thesis unfolding occurs_def by blast
  qed
qed

lemma match_iff_accepts:
  "(match_at p prev s \<noteq> None) = (\<exists>w v. s = w @ v \<and> accepts p prev w (head v))"
proof
  assume "match_at p prev s \<noteq> None"
  then obtain n where "match_at p prev s = Some n" by blast
  from match_at_sound[OF this] show "\<exists>w v. s = w @ v \<and> accepts p prev w (head v)" by blast
next
  assume "\<exists>w v. s = w @ v \<and> accepts p prev w (head v)"
  then show "match_at p prev s \<noteq> None" using match_at_complete by blast
qed

lemma search_iff_occurs: "search_from p prev s = occurs p prev s"
proof (induction s arbitrary: prev)
  case Nil
  show ?case using match_iff_accepts[of p prev "[]"] by (simp add: occurs_Nil head_def)
next
  case (Cons c cs)
  show ?case by (simp only: search_from.simps occurs_Cons Cons.IH match_iff_accepts)
qed

lemma sub_from_clean:
  "\<not> search_from p prev s \<Longrightarrow> sub_from p repl prev s = s"
  by (induction s arbitrary: prev) auto

text \<open>The output after a prefix without \<open>[\<close> is the scan of the rest of the input.\<close>

lemma sub_from_prefix:
  assumes "sub_from p (sentinel mid) prev s = w @ v" and "CHR ''['' \<notin> set w"
  shows "\<exists>v'. s = w @ v' \<and> v = sub_from p (sentinel mid) (prev_after prev w) v'"
  using assms
proof (induction w arbitrary: prev s)
  case Nil
  then show ?case by simp
next
  case (Cons x w)
  show ?case
  proof (cases s)
    case Nil
    with Cons.prems show ?thesis by (auto simp: sentinel_def split: option.splits)
  next
    case (Cons c cs)
    show ?thesis
    proof (cases "match_at p prev (c # cs)")
      case None
      with Cons.prems \<open>s = c # cs\<close> have x: "x = c" and o: "sub_from p (sentinel mid) (Some c) cs = w @ v"
        by auto
      from Cons.prems(2) have "CHR ''['' \<notin> set w" by simp
      from Cons.IH[OF o this] obtain v' where "cs = w @ v'"
        "v = sub_from p (sentinel mid) (prev_after (Some c) w) v'" by blast
      with x \<open>s = c # cs\<close> show ?thesis by (auto simp: prev_after_Cons)
    next
      case (Some n)
      with Cons.prems \<open>s = c # cs\<close> show ?thesis
        by (cases n) (auto simp: sentinel_def)
    qed
  qed
qed

lemma head_sub_from:
  "head (sub_from p (sentinel mid) prev s) =
     (if match_at p prev s \<noteq> None then Some (CHR ''['') else head s)"
  by (cases s) (auto simp: head_def sentinel_def split: option.splits nat.splits)

text \<open>A piece without brackets of a text that starts with a sentinel.\<close>

lemma split_sentinel:
  assumes "sentinel mid @ rest = u @ w @ v" and "w \<noteq> []"
    and "CHR ''['' \<notin> set w" and "CHR '']'' \<notin> set w"
  shows "sublist w mid \<or> (\<exists>u'. u = sentinel mid @ u' \<and> rest = u' @ w @ v)"
proof -
  have e: "(CHR ''['' # mid) @ CHR '']'' # rest = u @ w @ v"
    using assms(1) by (simp add: sentinel_def)
  from e[unfolded append_eq_append_conv2[of "CHR ''['' # mid" "CHR '']'' # rest" u "w @ v"]]
  obtain us where "(CHR ''['' # mid = u @ us \<and> us @ CHR '']'' # rest = w @ v)
      \<or> ((CHR ''['' # mid) @ us = u \<and> CHR '']'' # rest = us @ w @ v)" by blast
  then show ?thesis
  proof
    assume a: "CHR ''['' # mid = u @ us \<and> us @ CHR '']'' # rest = w @ v"
    then have b: "us @ CHR '']'' # rest = w @ v" by simp
    from b[unfolded append_eq_append_conv2[of us "CHR '']'' # rest" w v]]
    obtain ws where "(us = w @ ws \<and> ws @ CHR '']'' # rest = v) \<or> (us @ ws = w \<and> CHR '']'' # rest = ws @ v)"
      by blast
    then show ?thesis
    proof
      assume c: "us = w @ ws \<and> ws @ CHR '']'' # rest = v"
      with a have m: "CHR ''['' # mid = u @ w @ ws" by simp
      show ?thesis
      proof (cases u)
        case Nil
        with m assms(2,3) show ?thesis by (cases w) auto
      next
        case (Cons x u')
        with m have "mid = u' @ w @ ws" by simp
        then show ?thesis by (auto simp: sublist_def)
      qed
    next
      assume c: "us @ ws = w \<and> CHR '']'' # rest = ws @ v"
      show ?thesis
      proof (cases ws)
        case Nil
        with c a have m: "CHR ''['' # mid = u @ w" by simp
        show ?thesis
        proof (cases u)
          case Nil
          with m assms(2,3) show ?thesis by (cases w) auto
        next
          case (Cons x u')
          with m have "mid = u' @ w" by simp
          then show ?thesis by simp
        qed
      next
        case (Cons y ws')
        with c have "y = CHR '']''" "y \<in> set w" by auto
        with assms(4) show ?thesis by simp
      qed
    qed
  next
    assume a: "(CHR ''['' # mid) @ us = u \<and> CHR '']'' # rest = us @ w @ v"
    show ?thesis
    proof (cases us)
      case Nil
      with a assms(2,4) show ?thesis by (cases w) auto
    next
      case (Cons y us')
      with a have "rest = us' @ w @ v" "y = CHR '']''" by auto
      with a Cons show ?thesis by (auto simp: sentinel_def)
    qed
  qed
qed

subsection \<open>Replacing matches by a bracketed token leaves no match\<close>

text \<open>
  What makes a bracketed token safe as the replacement for a pattern: a match is never
  empty, contains no bracket and is no piece of the token's inside; and putting a bracket
  where a neighbouring match was does not create a match.
\<close>

definition sentinel_ok :: "atom list \<Rightarrow> string \<Rightarrow> bool" where
  "sentinel_ok p mid =
     ((\<forall>a w n. accepts p a w n \<longrightarrow>
          w \<noteq> [] \<and> CHR ''['' \<notin> set w \<and> CHR '']'' \<notin> set w \<and> \<not> sublist w mid)
      \<and> (\<forall>a w0 w n. accepts p a w0 (head w) \<and> accepts p (Some (CHR '']'')) w n \<longrightarrow>
            accepts p (Some (last w0)) w n)
      \<and> (\<forall>a w w1 n1. accepts p a w (Some (CHR ''['')) \<and> accepts p (Some (last w)) w1 n1 \<longrightarrow>
            accepts p a w (head w1)))"

lemma sentinel_okD:
  assumes "sentinel_ok p mid" "accepts p a w n"
  shows "w \<noteq> []" "CHR ''['' \<notin> set w" "CHR '']'' \<notin> set w" "\<not> sublist w mid"
  using assms unfolding sentinel_ok_def by blast+

lemma sentinel_ok_left:
  "sentinel_ok p mid \<Longrightarrow> accepts p a w0 (head w) \<Longrightarrow> accepts p (Some (CHR '']'')) w n
   \<Longrightarrow> accepts p (Some (last w0)) w n"
  unfolding sentinel_ok_def by blast

lemma sentinel_ok_right:
  "sentinel_ok p mid \<Longrightarrow> accepts p a w (Some (CHR ''['')) \<Longrightarrow> accepts p (Some (last w)) w1 n1
   \<Longrightarrow> accepts p a w (head w1)"
  unfolding sentinel_ok_def by blast

lemma no_empty_match:
  assumes "sentinel_ok p mid"
  shows "match_at p prev s \<noteq> Some 0"
proof
  assume "match_at p prev s = Some 0"
  from match_at_sound[OF this] obtain w v where "length w = 0" "accepts p prev w (head v)" by blast
  with sentinel_okD(1)[OF assms] show False by auto
qed

lemma prev_after_sentinel: "prev_after oprev (sentinel mid @ u) = prev_after (Some (CHR '']'')) u"
  by (simp add: prev_after_def sentinel_def)

lemma head_nonempty: "w \<noteq> [] \<Longrightarrow> head (w @ v) = head w"
  by (cases w) (simp_all add: head_def)

lemma sub_from_no_occurrence:
  assumes ok: "sentinel_ok p mid"
  shows "oprev = prev \<or> (oprev = Some (CHR '']'') \<and>
            (\<exists>a w0. w0 \<noteq> [] \<and> prev = Some (last w0) \<and> accepts p a w0 (head s)))
         \<Longrightarrow> \<not> occurs p oprev (sub_from p (sentinel mid) prev s)"
proof (induction "length s" arbitrary: s prev oprev rule: less_induct)
  case less
  note rel = less.prems
  show ?case
  proof
    assume "occurs p oprev (sub_from p (sentinel mid) prev s)"
    then obtain u w v where O: "sub_from p (sentinel mid) prev s = u @ w @ v"
      and acc: "accepts p (prev_after oprev u) w (head v)"
      unfolding occurs_def by blast
    note w = sentinel_okD[OF ok acc]
    show False
    proof (cases s)
      case Nil
      have "match_at p prev [] = None"
      proof (rule ccontr)
        assume "match_at p prev [] \<noteq> None"
        then obtain n where m: "match_at p prev [] = Some n" by blast
        from match_at_sound[OF m] obtain w' v' where "[] = w' @ v'" "accepts p prev w' (head v')"
          by blast
        with sentinel_okD(1)[OF ok] show False by auto
      qed
      with Nil O w(1) show False by simp
    next
      case (Cons c cs)
      show False
      proof (cases "match_at p prev (c # cs)")
        case None
        with Cons have O': "sub_from p (sentinel mid) prev s = c # sub_from p (sentinel mid) (Some c) cs"
          by simp
        show False
        proof (cases u)
          case Nil
          with O have Ow: "sub_from p (sentinel mid) prev s = w @ v" by simp
          from sub_from_prefix[OF Ow w(2)] obtain v' where s: "s = w @ v'"
            and v: "v = sub_from p (sentinel mid) (prev_after prev w) v'" by blast
          from w(1) have pw: "prev_after prev w = Some (last w)" by (simp add: prev_after_def)
          from acc Nil have acc0: "accepts p oprev w (head v)" by simp
          have right: "accepts p oprev w (head v')"
          proof (cases "match_at p (Some (last w)) v'")
            case None
            with v pw have "head v = head v'" by (simp add: head_sub_from)
            with acc0 show ?thesis by simp
          next
            case (Some n1)
            with v pw have hv: "head v = Some (CHR ''['')" by (simp add: head_sub_from)
            from match_at_sound[OF Some] obtain w1 v1 where v': "v' = w1 @ v1"
              and a1: "accepts p (Some (last w)) w1 (head v1)" by blast
            from sentinel_okD(1)[OF ok a1] v' have "head v' = head w1"
              by (simp add: head_nonempty)
            moreover from acc0 hv have "accepts p oprev w (Some (CHR ''['')) " by simp
            from sentinel_ok_right[OF ok this a1] have "accepts p oprev w (head w1)" .
            ultimately show ?thesis by simp
          qed
          have left: "accepts p prev w (head v')"
          proof -
            from rel show ?thesis
            proof
              assume "oprev = prev"
              with right show ?thesis by simp
            next
              assume "oprev = Some (CHR '']'') \<and>
                (\<exists>a w0. w0 \<noteq> [] \<and> prev = Some (last w0) \<and> accepts p a w0 (head s))"
              then obtain a w0 where o: "oprev = Some (CHR '']'')" and p0: "prev = Some (last w0)"
                and a0: "accepts p a w0 (head s)" by blast
              from s w(1) have "head s = head w" by (simp add: head_nonempty)
              with a0 have "accepts p a w0 (head w)" by simp
              from sentinel_ok_left[OF ok this] right o p0 show ?thesis by simp
            qed
          qed
          from match_at_complete[OF left] s Cons None show False by simp
        next
          case (Cons x u')
          with O O' have "sub_from p (sentinel mid) (Some c) cs = u' @ w @ v" and "x = c" by auto
          with acc Cons have "occurs p (Some c) (sub_from p (sentinel mid) (Some c) cs)"
            unfolding occurs_def by (auto simp: prev_after_Cons)
          moreover from \<open>s = c # cs\<close> have "length cs < length s" by simp
          ultimately show False using less.hyps[of cs "Some c" "Some c"] by blast
        qed
      next
        case (Some n)
        with no_empty_match[OF ok, of prev "c # cs"] obtain n' where n: "n = Suc n'"
          by (cases n) auto
        define rest where "rest = drop (Suc n') (c # cs)"
        define prev' where "prev' = Some (last (take (Suc n') (c # cs)))"
        from Some n Cons have O': "sub_from p (sentinel mid) prev s
            = sentinel mid @ sub_from p (sentinel mid) prev' rest"
          by (simp add: rest_def prev'_def)
        from split_sentinel[OF O[unfolded O'] w(1,2,3)] w(4) obtain u' where
          u: "u = sentinel mid @ u'" and r: "sub_from p (sentinel mid) prev' rest = u' @ w @ v"
          by blast
        from acc u have "accepts p (prev_after (Some (CHR '']'')) u') w (head v)"
          by (simp add: prev_after_sentinel)
        with r have oc: "occurs p (Some (CHR '']'')) (sub_from p (sentinel mid) prev' rest)"
          unfolding occurs_def by blast
        from match_at_sound[OF Some] n obtain w0 v0 where s0: "c # cs = w0 @ v0"
          and l0: "length w0 = Suc n'" and a0: "accepts p prev w0 (head v0)" by blast
        from s0 l0 have "rest = v0" "take (Suc n') (c # cs) = w0" "w0 \<noteq> []"
          by (auto simp: rest_def)
        with a0 have rel': "Some (CHR '']'') = Some (CHR '']'') \<and>
           (\<exists>a w0. w0 \<noteq> [] \<and> prev' = Some (last w0) \<and> accepts p a w0 (head rest))"
          unfolding prev'_def by auto
        from Cons have "length rest < length s" by (simp add: rest_def)
        from less.hyps[OF this, of "Some (CHR '']'')" prev'] rel' oc show False by blast
      qed
    qed
  qed
qed

lemma sub_from_sublist:
  "sublist w (sub_from q (sentinel mid) prev s) \<Longrightarrow> CHR ''['' \<notin> set w \<Longrightarrow> CHR '']'' \<notin> set w
   \<Longrightarrow> sublist w s \<or> sublist w mid"
proof (induction "length s" arbitrary: s prev rule: less_induct)
  case less
  note br = less.prems(2,3)
  show ?case
  proof (cases "w = []")
    case True
    then show ?thesis by simp
  next
    case False
    have tail: "sublist w s \<or> sublist w mid"
      if "s = c # cs" and "sublist w (c # sub_from q (sentinel mid) (Some c) cs)" for c cs
    proof -
      from that(2) have "prefix w (c # sub_from q (sentinel mid) (Some c) cs)
          \<or> sublist w (sub_from q (sentinel mid) (Some c) cs)"
        by (simp add: sublist_Cons_right)
      then show ?thesis
      proof
        assume "prefix w (c # sub_from q (sentinel mid) (Some c) cs)"
        with False obtain w' v where w: "w = c # w'"
          and o: "sub_from q (sentinel mid) (Some c) cs = w' @ v"
          by (cases w) (auto simp: prefix_def)
        from br(1) w have "CHR ''['' \<notin> set w'" by simp
        from sub_from_prefix[OF o this] obtain v' where "cs = w' @ v'" by blast
        with w that(1) have "s = w @ v'" by simp
        then show ?thesis by auto
      next
        assume a: "sublist w (sub_from q (sentinel mid) (Some c) cs)"
        from that(1) have "length cs < length s" by simp
        from less.hyps[OF this a br] that(1) show ?thesis
          by (auto simp: sublist_Cons_right)
      qed
    qed
    from less.prems(1) obtain u v where O: "sub_from q (sentinel mid) prev s = u @ w @ v"
      by (auto simp: sublist_def)
    show ?thesis
    proof (cases s)
      case Nil
      show ?thesis
      proof (cases "match_at q prev []")
        case None
        with Nil O False show ?thesis by simp
      next
        case (Some n)
        with Nil O have "sentinel mid @ [] = u @ w @ v" by simp
        from split_sentinel[OF this False br] False show ?thesis by auto
      qed
    next
      case (Cons c cs)
      show ?thesis
      proof (cases "match_at q prev (c # cs)")
        case None
        with Cons less.prems(1) have "sublist w (c # sub_from q (sentinel mid) (Some c) cs)"
          by simp
        from tail[OF Cons this] show ?thesis .
      next
        case (Some n)
        show ?thesis
        proof (cases n)
          case 0
          with Some Cons O have
            "sentinel mid @ (c # sub_from q (sentinel mid) (Some c) cs) = u @ w @ v" by simp
          from split_sentinel[OF this False br] show ?thesis
          proof
            assume "sublist w mid"
            then show ?thesis by simp
          next
            assume "\<exists>u'. u = sentinel mid @ u' \<and> c # sub_from q (sentinel mid) (Some c) cs = u' @ w @ v"
            then have "sublist w (c # sub_from q (sentinel mid) (Some c) cs)"
              by (auto simp: sublist_def)
            from tail[OF Cons this] show ?thesis .
          qed
        next
          case (Suc n')
          define rest where "rest = drop (Suc n') (c # cs)"
          define prev' where "prev' = Some (last (take (Suc n') (c # cs)))"
          from Some Suc Cons O have
            "sentinel mid @ sub_from q (sentinel mid) prev' rest = u @ w @ v"
            by (simp add: rest_def prev'_def)
          from split_sentinel[OF this False br] show ?thesis
          proof
            assume "sublist w mid"
            then show ?thesis by simp
          next
            assume "\<exists>u'. u = sentinel mid @ u' \<and> sub_from q (sentinel mid) prev' rest = u' @ w @ v"
            then have a: "sublist w (sub_from q (sentinel mid) prev' rest)"
              by (auto simp: sublist_def)
            from Cons have "length rest < length s" by (simp add: rest_def)
            from less.hyps[OF this a br] show ?thesis
            proof
              assume "sublist w rest"
              moreover have "sublist rest s" unfolding rest_def Cons by (rule sublist_drop)
              ultimately have "sublist w s" using sublist_order.order_trans by blast
              then show ?thesis by simp
            next
              assume "sublist w mid"
              then show ?thesis by simp
            qed
          qed
        qed
      qed
    qed
  qed
qed

text \<open>The characters that a pattern can read.\<close>

fun alphabet :: "atom list \<Rightarrow> char set" where
  "alphabet [] = {}"
| "alphabet (Boundary # p) = alphabet p"
| "alphabet (Rep cls lo hi # p) = set cls \<union> alphabet p"

lemma accepts_alphabet: "accepts p a w n \<Longrightarrow> set w \<subseteq> alphabet p"
proof (induction p arbitrary: a w)
  case Nil
  then show ?case by simp
next
  case (Cons x p)
  show ?case
  proof (cases x)
    case Boundary
    with Cons show ?thesis by auto
  next
    case (Rep cls lo hi)
    with Cons.prems obtain k where k: "set (take k w) \<subseteq> set cls"
      "accepts p (prev_after a (take k w)) (drop k w) n" by auto
    from Cons.IH[OF k(2)] have "set (drop k w) \<subseteq> alphabet p" .
    moreover have "set w = set (take k w) \<union> set (drop k w)"
      by (metis append_take_drop_id set_append)
    ultimately show ?thesis using k(1) Rep by auto
  qed
qed

lemma accepts_required:
  "accepts p a w n \<Longrightarrow> Rep cls lo hi \<in> set p \<Longrightarrow> 0 < lo \<Longrightarrow> set w \<inter> set cls \<noteq> {}"
proof (induction p arbitrary: a w)
  case Nil
  then show ?case by simp
next
  case (Cons x p)
  show ?case
  proof (cases x)
    case Boundary
    with Cons show ?thesis by auto
  next
    case (Rep cls' lo' hi')
    with Cons.prems(1) obtain k where k: "k \<le> length w" "lo' \<le> k" "set (take k w) \<subseteq> set cls'"
      "accepts p (prev_after a (take k w)) (drop k w) n" by auto
    show ?thesis
    proof (cases "x = Rep cls lo hi")
      case True
      with Rep Cons.prems(3) k have "take k w \<noteq> []" "set (take k w) \<subseteq> set cls" by auto
      then obtain c where "c \<in> set (take k w)" "c \<in> set cls" by (cases "take k w") auto
      then have "c \<in> set w" by (meson in_set_takeD)
      with \<open>c \<in> set cls\<close> show ?thesis by auto
    next
      case False
      with Cons.prems(2) have "Rep cls lo hi \<in> set p" by simp
      from Cons.IH[OF k(4) this Cons.prems(3)] have "set (drop k w) \<inter> set cls \<noteq> {}" .
      then show ?thesis by (meson disjoint_iff in_set_dropD)
    qed
  qed
qed

lemma accepts_context_free:
  "Boundary \<notin> set p \<Longrightarrow> accepts p a w n = accepts p a' w n'"
proof (induction p arbitrary: a a' w)
  case Nil
  show ?case by simp
next
  case (Cons x p)
  show ?case
  proof (cases x)
    case Boundary
    with Cons.prems show ?thesis by simp
  next
    case (Rep cls lo hi)
    from Cons.prems have "Boundary \<notin> set p" by simp
    from Cons.IH[OF this] have
      "accepts p (prev_after a (take k w)) (drop k w) n
        = accepts p (prev_after a' (take k w)) (drop k w) n'" for k by blast
    with Rep show ?thesis by simp
  qed
qed

lemma sentinel_ok_free:
  assumes "Boundary \<notin> set p" "CHR ''['' \<notin> alphabet p" "CHR '']'' \<notin> alphabet p"
    and "Rep cls lo hi \<in> set p" "0 < lo" "set cls \<inter> set mid = {}"
  shows "sentinel_ok p mid"
proof -
  have 1: "w \<noteq> [] \<and> CHR ''['' \<notin> set w \<and> CHR '']'' \<notin> set w \<and> \<not> sublist w mid"
    if "accepts p a w n" for a w n
  proof -
    from accepts_required[OF that assms(4,5)] obtain c where c: "c \<in> set w" "c \<in> set cls"
      by auto
    from accepts_alphabet[OF that] assms(2,3) have "CHR ''['' \<notin> set w" "CHR '']'' \<notin> set w"
      by auto
    moreover from c have "w \<noteq> []" by auto
    moreover have "\<not> sublist w mid"
    proof
      assume "sublist w mid"
      from set_mono_sublist[OF this] c assms(6) show False by auto
    qed
    ultimately show ?thesis by simp
  qed
  show ?thesis
    unfolding sentinel_ok_def using 1 accepts_context_free[OF assms(1)] by blast
qed

lemma occurs_free_preserved:
  assumes "Boundary \<notin> set p" "CHR ''['' \<notin> alphabet p" "CHR '']'' \<notin> alphabet p"
    and "Rep cls lo hi \<in> set p" "0 < lo" "set cls \<inter> set mid = {}"
    and "\<not> occurs p a s"
  shows "\<not> occurs p a' (sub_from q (sentinel mid) prev s)"
proof
  assume "occurs p a' (sub_from q (sentinel mid) prev s)"
  then obtain u w v where O: "sub_from q (sentinel mid) prev s = u @ w @ v"
    and acc: "accepts p (prev_after a' u) w (head v)" unfolding occurs_def by blast
  from accepts_alphabet[OF acc] assms(2,3) have br: "CHR ''['' \<notin> set w" "CHR '']'' \<notin> set w"
    by auto
  from O have "sublist w (sub_from q (sentinel mid) prev s)" by (auto simp: sublist_def)
  from sub_from_sublist[OF this br] show False
  proof
    assume "sublist w s"
    then obtain u1 v1 where s: "s = u1 @ w @ v1" by (auto simp: sublist_def)
    from acc accepts_context_free[OF assms(1)] have "accepts p (prev_after a u1) w (head v1)"
      by blast
    with s assms(7) show False unfolding occurs_def by blast
  next
    assume "sublist w mid"
    from set_mono_sublist[OF this] accepts_required[OF acc assms(4,5)] assms(6) show False
      by auto
  qed
qed


section \<open>PII guardrail of \<open>week4/autonomousclaims.py\<close>\<close>

definition alnum :: string where
  "alnum = ''abcdefghijklmnopqrstuvwxyzABCDEFGHIJKLMNOPQRSTUVWXYZ0123456789''"

definition digits :: string where
  "digits = ''0123456789''"

text \<open>
  \<open>email_pattern\<close> is \<open>[a-zA-Z0-9_.+-]+@[a-zA-Z0-9-]+\.[a-zA-Z0-9-.]+\<close> and \<open>phone_pattern\<close>
  is \<open>\b\d{3}[-.]?\d{3}[-.]?\d{4}\b\<close>.
\<close>

definition email_pattern :: "atom list" where
  "email_pattern =
     [Rep (alnum @ ''_.+-'') 1 None, Rep ''@'' 1 (Some 1), Rep (alnum @ ''-'') 1 None,
      Rep ''.'' 1 (Some 1), Rep (alnum @ ''-.'') 1 None]"

definition phone_pattern :: "atom list" where
  "phone_pattern =
     [Boundary, Rep digits 3 (Some 3), Rep ''-.'' 0 (Some 1), Rep digits 3 (Some 3),
      Rep ''-.'' 0 (Some 1), Rep digits 4 (Some 4), Boundary]"

text \<open>The inner function \<open>redact\<close>: emails first, then phone numbers.\<close>

definition redact :: "string \<Rightarrow> string" where
  "redact s =
     re_sub phone_pattern ''[REDACTED_PHONE]'' (re_sub email_pattern ''[REDACTED_EMAIL]'' s)"

text \<open>
  \<open>pii_guardrail\<close> on a message content: a string is redacted; in a list of content parts,
  the \<open>text\<close> entry of each part of type \<open>text\<close> is redacted in a copy of the part; any other
  content is returned as it is. A part that is not a dict fails with AttributeError, a text
  part without a \<open>text\<close> entry with KeyError, one whose text is not a string with TypeError.
\<close>

fun redact_item :: "json \<Rightarrow> error + json" where
  "redact_item (JObj item) =
     (if map_of item ''type'' = Some (JStr ''text'')
      then (case map_of item ''text'' of
              None \<Rightarrow> Inl KeyError
            | Some (JStr x) \<Rightarrow>
                Inr (JObj (map (\<lambda>(k, v). if k = ''text'' then (k, JStr (redact x)) else (k, v)) item))
            | Some _ \<Rightarrow> Inl (TypeError ''expected string or bytes-like object''))
      else Inr (JObj item))"
| "redact_item _ = Inl AttributeError"

fun redact_items :: "json list \<Rightarrow> error + json list" where
  "redact_items [] = Inr []"
| "redact_items (item # content) =
     (case redact_item item of
        Inl e \<Rightarrow> Inl e
      | Inr new_item \<Rightarrow>
          (case redact_items content of
             Inl e \<Rightarrow> Inl e
           | Inr new_content \<Rightarrow> Inr (new_item # new_content)))"

definition pii_guardrail :: "json \<Rightarrow> error + json" where
  "pii_guardrail content =
     (case content of
        JStr s \<Rightarrow> Inr (JStr (redact s))
      | JArr items \<Rightarrow>
          (case redact_items items of Inl e \<Rightarrow> Inl e | Inr new_content \<Rightarrow> Inr (JArr new_content))
      | _ \<Rightarrow> Inr content)"

subsection \<open>The two tokens are safe for the two patterns\<close>

lemma accepts_first:
  assumes "accepts (Boundary # Rep cls lo hi # q) a w n" "0 < lo" "\<forall>c \<in> set cls. is_word c"
  shows "w \<noteq> [] \<and> is_word (hd w) \<and> \<not> is_word_opt a"
proof -
  from assms(1) obtain k where k: "k \<le> length w" "lo \<le> k" "set (take k w) \<subseteq> set cls"
    and b: "is_word_opt a \<noteq> is_word_opt (case w of [] \<Rightarrow> n | c # _ \<Rightarrow> Some c)"
    by auto
  from k assms(2) obtain c w' where w: "w = c # w'" and "c \<in> set cls"
    by (cases w; cases k) auto
  with assms(3) have "is_word c" by blast
  with b w show ?thesis by (simp add: is_word_opt_def)
qed

lemma accepts_last:
  assumes "accepts (q @ [Rep cls lo hi, Boundary]) a w n" "0 < lo" "\<forall>c \<in> set cls. is_word c"
  shows "w \<noteq> [] \<and> is_word (last w) \<and> \<not> is_word_opt n"
  using assms(1)
proof (induction q arbitrary: a w)
  case Nil
  then obtain k where k: "k \<le> length w" "lo \<le> k" "set (take k w) \<subseteq> set cls"
    and d: "drop k w = []"
    and b: "is_word_opt (prev_after a (take k w)) \<noteq> is_word_opt n"
    by auto
  from d k(1) have kw: "take k w = w" by simp
  from k(1,2) assms(2) have ne: "w \<noteq> []" by auto
  with k(3) kw have "last w \<in> set cls" by (metis last_in_set subsetD)
  with assms(3) have "is_word (last w)" by blast
  with b kw ne show ?case by (simp add: prev_after_def is_word_opt_def)
next
  case (Cons x q)
  show ?case
  proof (cases x)
    case Boundary
    with Cons show ?thesis by auto
  next
    case (Rep cls' lo' hi')
    with Cons.prems obtain k where
      "accepts (q @ [Rep cls lo hi, atom.Boundary]) (prev_after a (take k w)) (drop k w) n"
      by auto
    from Cons.IH[OF this] have d: "drop k w \<noteq> []" "is_word (last (drop k w))" "\<not> is_word_opt n"
      by blast+
    from d(1) have "k < length w" by simp
    then have "last (drop k w) = last w" by (rule last_drop)
    with d show ?thesis by auto
  qed
qed

lemma digits_word: "\<forall>c \<in> set digits. is_word c"
  by (simp add: digits_def is_word_def)

lemma phone_edges:
  assumes "accepts phone_pattern a w n"
  shows "w \<noteq> []" "is_word (hd w)" "is_word (last w)" "\<not> is_word_opt a" "\<not> is_word_opt n"
proof -
  have f: "phone_pattern = Boundary # Rep digits 3 (Some 3) #
      [Rep ''-.'' 0 (Some 1), Rep digits 3 (Some 3), Rep ''-.'' 0 (Some 1),
       Rep digits 4 (Some 4), Boundary]"
    by (simp add: phone_pattern_def)
  have l: "phone_pattern = [Boundary, Rep digits 3 (Some 3), Rep ''-.'' 0 (Some 1),
      Rep digits 3 (Some 3), Rep ''-.'' 0 (Some 1)] @ [Rep digits 4 (Some 4), Boundary]"
    by (simp add: phone_pattern_def)
  from accepts_first[OF assms[unfolded f] _ digits_word]
  show "w \<noteq> []" "is_word (hd w)" "\<not> is_word_opt a" by simp_all
  from accepts_last[OF assms[unfolded l] _ digits_word]
  show "is_word (last w)" "\<not> is_word_opt n" by simp_all
qed

lemma phone_alphabet: "alphabet phone_pattern = set digits \<union> set ''-.''"
  by (auto simp: phone_pattern_def)

lemma phone_sentinel_ok: "sentinel_ok phone_pattern ''REDACTED_PHONE''"
proof -
  have 1: "w \<noteq> [] \<and> CHR ''['' \<notin> set w \<and> CHR '']'' \<notin> set w \<and> \<not> sublist w ''REDACTED_PHONE''"
    if acc: "accepts phone_pattern a w n" for a w n
  proof -
    have r: "Rep digits 3 (Some 3) \<in> set phone_pattern" by (simp add: phone_pattern_def)
    from accepts_required[OF acc r] obtain c where c: "c \<in> set w" "c \<in> set digits" by auto
    from accepts_alphabet[OF acc] have "set w \<subseteq> set digits \<union> set ''-.''"
      by (simp only: phone_alphabet)
    then have "CHR ''['' \<notin> set w" "CHR '']'' \<notin> set w" by (auto simp: digits_def)
    moreover have "\<not> sublist w ''REDACTED_PHONE''"
    proof
      assume "sublist w ''REDACTED_PHONE''"
      from set_mono_sublist[OF this] c show False by (auto simp: digits_def)
    qed
    ultimately show ?thesis using phone_edges(1)[OF acc] by simp
  qed
  have 2: "accepts phone_pattern (Some (last w0)) w n"
    if "accepts phone_pattern a w0 (head w)" "accepts phone_pattern (Some (CHR '']'')) w n"
    for a w0 w n
  proof -
    from phone_edges(1,2)[OF that(2)] have "is_word_opt (head w)"
      by (cases w) (simp_all add: head_def is_word_opt_def)
    with phone_edges(5)[OF that(1)] show ?thesis by simp
  qed
  have 3: "accepts phone_pattern a w (head w1)"
    if "accepts phone_pattern a w (Some (CHR ''['')) " "accepts phone_pattern (Some (last w)) w1 n1"
    for a w w1 n1
  proof -
    from phone_edges(3)[OF that(1)] phone_edges(4)[OF that(2)] show ?thesis
      by (simp add: is_word_opt_def)
  qed
  show ?thesis unfolding sentinel_ok_def using 1 2 3 by blast
qed

lemma email_facts:
  "Boundary \<notin> set email_pattern" "CHR ''['' \<notin> alphabet email_pattern"
  "CHR '']'' \<notin> alphabet email_pattern" "Rep ''@'' 1 (Some 1) \<in> set email_pattern"
  by (simp_all add: email_pattern_def alnum_def)

lemma email_sentinel_ok: "sentinel_ok email_pattern ''REDACTED_EMAIL''"
  by (rule sentinel_ok_free[OF email_facts]) simp_all

lemma re_sub_clean:
  assumes "sentinel_ok p mid"
  shows "\<not> occurs p None (re_sub p (sentinel mid) s)"
  unfolding re_sub_def using sub_from_no_occurrence[OF assms, of None None s] by simp

lemma re_sub_fixed:
  "\<not> occurs p None s \<Longrightarrow> re_sub p repl s = s"
  unfolding re_sub_def by (rule sub_from_clean) (simp add: search_iff_occurs)

text \<open>
  Redacting twice: the emails are gone after the first pass over emails, replacing phone
  numbers by their token brings no email back, and the phone numbers are gone after the
  first pass over phone numbers; so each pass of the second application changes nothing.
\<close>

lemma redact_twice: "redact (redact t) = redact t"
proof -
  let ?E = "re_sub email_pattern (sentinel ''REDACTED_EMAIL'')"
  let ?P = "re_sub phone_pattern (sentinel ''REDACTED_PHONE'')"
  have r: "redact s = ?P (?E s)" for s by (simp add: redact_def sentinel_def)
  have 1: "\<not> occurs email_pattern None (?E t)"
    by (rule re_sub_clean[OF email_sentinel_ok])
  have 2: "\<not> occurs email_pattern None (?P (?E t))"
    unfolding re_sub_def[of phone_pattern]
    by (rule occurs_free_preserved[OF email_facts _ _ 1]) simp_all
  have 3: "?E (?P (?E t)) = ?P (?E t)" by (rule re_sub_fixed[OF 2])
  have 4: "\<not> occurs phone_pattern None (?P (?E t))"
    by (rule re_sub_clean[OF phone_sentinel_ok])
  have 5: "?P (?P (?E t)) = ?P (?E t)" by (rule re_sub_fixed[OF 4])
  show ?thesis by (simp only: r 3 5)
qed

lemma redact_example:
  "redact ''Contact a@b.com or 555-123-4567'' = ''Contact [REDACTED_EMAIL] or [REDACTED_PHONE]''"
  by code_simp

section \<open>The guarded agent of \<open>week4/Production-Ready.py\<close>\<close>

text \<open>
  The pattern of the decorator, \<open>[a-zA-Z0-9._%+-]+@[a-zA-Z0-9.-]+\.[a-zA-Z]{2,}\<close>.
\<close>

definition alpha :: string where
  "alpha = ''abcdefghijklmnopqrstuvwxyzABCDEFGHIJKLMNOPQRSTUVWXYZ''"

definition guardrail_email_pattern :: "atom list" where
  "guardrail_email_pattern =
     [Rep (alnum @ ''._%+-'') 1 None, Rep ''@'' 1 (Some 1), Rep (alnum @ ''.-'') 1 None,
      Rep ''.'' 1 (Some 1), Rep alpha 2 None]"

text \<open>
  The decorator \<open>@guardrail_pii\<close>: it calls the function and, when the result is a string,
  returns it with every email match replaced; any other result is returned as it is. A
  function here takes its arguments and returns a value with the state it leaves, or fails.
\<close>

definition guardrail_pii ::
  "('a \<Rightarrow> error + (json \<times> 'b)) \<Rightarrow> 'a \<Rightarrow> error + (json \<times> 'b)" where
  "guardrail_pii func args =
     (case func args of
        Inl e \<Rightarrow> Inl e
      | Inr (JStr x, st) \<Rightarrow> Inr (JStr (re_sub guardrail_email_pattern ''[REDACTED_EMAIL]'' x), st)
      | Inr (other, st) \<Rightarrow> Inr (other, st))"

text \<open>
  The state around the agent: the provider, the global dict \<open>CACHE_STORE\<close> and the records
  written to \<open>agent_traces.jsonl\<close>.
\<close>

record 's production =
  provider :: 's
  CACHE_STORE :: "string \<rightharpoonup> string"
  agent_traces :: "span list"

definition check_cache :: "'s production \<Rightarrow> string \<Rightarrow> string option" where
  "check_cache st prompt = CACHE_STORE st prompt"

definition update_cache :: "'s production \<Rightarrow> string \<Rightarrow> string \<Rightarrow> 's production" where
  "update_cache st prompt response = st\<lparr>CACHE_STORE := (CACHE_STORE st)(prompt \<mapsto> response)\<rparr>"

text \<open>\<open>str(e)\<close> of an exception, for the text \<open>Error: ...\<close> of the \<open>except\<close> branch.\<close>

fun error_str :: "error \<Rightarrow> string" where
  "error_str (GatewayError msg) = msg"
| "error_str (TypeError msg) = msg"
| "error_str IndexError = ''list index out of range''"
| "error_str KeyError = ''KeyError''"
| "error_str AttributeError = ''AttributeError''"

text \<open>
  Step 3 of the agent: the mock response without an API key, otherwise the provider's
  answer to the query with the request for a contact email; a failure of the provider is
  caught and becomes the response text.
\<close>

definition mock_response :: string where
  "mock_response = ''Sure, I can help. Contact support at admin@company.com for details.''"

definition llm_response :: "'s env \<Rightarrow> 's \<Rightarrow> string \<Rightarrow> string \<times> 's" where
  "llm_response env s user_query =
     (if \<not> has_key env then (mock_response, s)
      else (case create env s ''gpt-4o''
                   [(''user'', JStr (user_query @ ''. Include a contact email in your response.''))]
                   False of
              (Inr content, s') \<Rightarrow> (content, s')
            | (Inl e, s') \<Rightarrow> (''Error: '' @ error_str e, s')))"

text \<open>
  The function under the decorator. \<open>clock\<close> holds the two readings of \<open>datetime.now()\<close>,
  for \<open>start_span\<close> and \<open>end_span\<close>. \<open>if cached:\<close> takes a cached response that is not
  empty; the cache is updated with the response as the provider gave it.
\<close>

definition agent_body ::
  "'s env \<Rightarrow> nat \<times> nat \<Rightarrow> string \<times> tracer \<times> 's production
     \<Rightarrow> error + (json \<times> tracer \<times> 's production)" where
  "agent_body env clock args =
     (case (clock, args) of ((t0, t1), (user_query, tr, st)) \<Rightarrow>
        (case start_span tr ''secure_agent_execution'' (JStr user_query) t0 of (tr1, span_idx) \<Rightarrow>
           (case check_cache st user_query of
              Some (c # cs) \<Rightarrow>
                (case end_span tr1 (agent_traces st) span_idx
                        (JObj [(''source'', JStr ''cache''), (''response'', JStr (c # cs))]) t1 of
                   Inl e \<Rightarrow> Inl e
                 | Inr (tr2, written) \<Rightarrow> Inr (JStr (c # cs), tr2, st\<lparr>agent_traces := written\<rparr>))
            | _ \<Rightarrow>
                (case llm_response env (provider st) user_query of (response, s') \<Rightarrow>
                   (let st1 = update_cache (st\<lparr>provider := s'\<rparr>) user_query response
                    in case end_span tr1 (agent_traces st1) span_idx
                              (JObj [(''source'', JStr ''llm''), (''response'', JStr response)]) t1 of
                         Inl e \<Rightarrow> Inl e
                       | Inr (tr2, written) \<Rightarrow> Inr (JStr response, tr2, st1\<lparr>agent_traces := written\<rparr>))))))"

definition secure_agent_executor ::
  "'s env \<Rightarrow> nat \<times> nat \<Rightarrow> string \<times> tracer \<times> 's production
     \<Rightarrow> error + (json \<times> tracer \<times> 's production)" where
  "secure_agent_executor env clock = guardrail_pii (agent_body env clock)"

text \<open>A text matches a pattern when the whole of it does, on its own.\<close>

definition matches :: "atom list \<Rightarrow> string \<Rightarrow> bool" where
  "matches p w = accepts p None w None"

text \<open>The state at the start of the demo, for the examples.\<close>

definition demo_production :: "nat production" where
  "demo_production = \<lparr>provider = 0, CACHE_STORE = Map.empty, agent_traces = []\<rparr>"

subsection \<open>Claim on the output of the agent\<close>

lemma guardrail_email_facts:
  "Boundary \<notin> set guardrail_email_pattern" "CHR ''['' \<notin> alphabet guardrail_email_pattern"
  "CHR '']'' \<notin> alphabet guardrail_email_pattern"
  "Rep ''@'' 1 (Some 1) \<in> set guardrail_email_pattern"
  by (simp_all add: guardrail_email_pattern_def alnum_def alpha_def)

lemma guardrail_sentinel_ok: "sentinel_ok guardrail_email_pattern ''REDACTED_EMAIL''"
  by (rule sentinel_ok_free[OF guardrail_email_facts]) simp_all

lemma guardrail_no_email:
  assumes "sublist w (re_sub guardrail_email_pattern ''[REDACTED_EMAIL]'' x)"
  shows "\<not> matches guardrail_email_pattern w"
proof
  assume m: "matches guardrail_email_pattern w"
  from assms obtain u v where
    o: "re_sub guardrail_email_pattern (sentinel ''REDACTED_EMAIL'') x = u @ w @ v"
    by (auto simp: sublist_def sentinel_def)
  from m have "accepts guardrail_email_pattern (prev_after None u) w (head v)"
    unfolding matches_def using accepts_context_free[OF guardrail_email_facts(1)] by blast
  with o have "occurs guardrail_email_pattern None
      (re_sub guardrail_email_pattern (sentinel ''REDACTED_EMAIL'') x)"
    unfolding occurs_def by blast
  with re_sub_clean[OF guardrail_sentinel_ok] show False by blast
qed

lemma end_span_after_start:
  assumes "start_span tr name inp t0 = (tr1, h)"
  shows "\<exists>tr2 sp. end_span tr1 file h out t1 = Inr (tr2, file @ [sp])"
  using assms
  by (auto simp: start_span_def end_span_def list_index_def Let_def)

lemma agent_body_result:
  "\<exists>tr' written.
     agent_body env (t0, t1) (user_query, tr, st) =
       (case check_cache st user_query of
          Some (c # cs) \<Rightarrow> Inr (JStr (c # cs), tr', st\<lparr>agent_traces := written\<rparr>)
        | _ \<Rightarrow>
            Inr (JStr (fst (llm_response env (provider st) user_query)), tr',
                 (update_cache (st\<lparr>provider := snd (llm_response env (provider st) user_query)\<rparr>)
                    user_query (fst (llm_response env (provider st) user_query)))
                 \<lparr>agent_traces := written\<rparr>))"
proof -
  obtain tr1 h where s: "start_span tr ''secure_agent_execution'' (JStr user_query) t0 = (tr1, h)"
    by (cases "start_span tr ''secure_agent_execution'' (JStr user_query) t0")
  note e = end_span_after_start[OF s]
  obtain response s' where l: "llm_response env (provider st) user_query = (response, s')"
    by (cases "llm_response env (provider st) user_query")
  show ?thesis
  proof (cases "check_cache st user_query")
    case None
    from e[of "agent_traces (update_cache (st\<lparr>provider := s'\<rparr>) user_query response)"
        "JObj [(''source'', JStr ''llm''), (''response'', JStr response)]" t1]
    obtain tr2 sp where "end_span tr1 (agent_traces (update_cache (st\<lparr>provider := s'\<rparr>) user_query response))
        h (JObj [(''source'', JStr ''llm''), (''response'', JStr response)]) t1
      = Inr (tr2, agent_traces (update_cache (st\<lparr>provider := s'\<rparr>) user_query response) @ [sp])"
      by blast
    with None s l show ?thesis by (auto simp: agent_body_def Let_def)
  next
    case (Some cached)
    show ?thesis
    proof (cases cached)
      case Nil
      from e[of "agent_traces (update_cache (st\<lparr>provider := s'\<rparr>) user_query response)"
          "JObj [(''source'', JStr ''llm''), (''response'', JStr response)]" t1]
      obtain tr2 sp where
        "end_span tr1 (agent_traces (update_cache (st\<lparr>provider := s'\<rparr>) user_query response))
          h (JObj [(''source'', JStr ''llm''), (''response'', JStr response)]) t1
        = Inr (tr2, agent_traces (update_cache (st\<lparr>provider := s'\<rparr>) user_query response) @ [sp])"
        by blast
      with Some Nil s l show ?thesis by (auto simp: agent_body_def Let_def)
    next
      case (Cons c cs)
      from e[of "agent_traces st"
          "JObj [(''source'', JStr ''cache''), (''response'', JStr (c # cs))]" t1]
      obtain tr2 sp where
        "end_span tr1 (agent_traces st) h
           (JObj [(''source'', JStr ''cache''), (''response'', JStr (c # cs))]) t1
         = Inr (tr2, agent_traces st @ [sp])" by blast
      with Some Cons s show ?thesis by (auto simp: agent_body_def Let_def)
    qed
  qed
qed

text \<open>
  Claim C10. For every query, tracer, state and provider, \<open>secure_agent_executor\<close> returns a
  string, and no piece of that string matches the email pattern. On a cache hit the string
  is the redaction of the cached response and the cache is unchanged; otherwise it is the
  redaction of the fresh response, and the cache holds that response as it was, unredacted.
\<close>

theorem secure_agent_output_redacted:
  "\<exists>r tr' st'.
     secure_agent_executor env (t0, t1) (user_query, tr, st) = Inr (JStr r, tr', st')
     \<and> (\<forall>w. sublist w r \<longrightarrow> \<not> matches guardrail_email_pattern w)
     \<and> (case check_cache st user_query of
          Some (c # cs) \<Rightarrow>
            r = re_sub guardrail_email_pattern ''[REDACTED_EMAIL]'' (c # cs)
            \<and> CACHE_STORE st' = CACHE_STORE st
        | _ \<Rightarrow>
            r = re_sub guardrail_email_pattern ''[REDACTED_EMAIL]''
                  (fst (llm_response env (provider st) user_query))
            \<and> CACHE_STORE st' user_query = Some (fst (llm_response env (provider st) user_query)))"
proof -
  from agent_body_result[of env t0 t1 user_query tr st] obtain tr' written where
    b: "agent_body env (t0, t1) (user_query, tr, st) =
       (case check_cache st user_query of
          Some (c # cs) \<Rightarrow> Inr (JStr (c # cs), tr', st\<lparr>agent_traces := written\<rparr>)
        | _ \<Rightarrow>
            Inr (JStr (fst (llm_response env (provider st) user_query)), tr',
                 (update_cache (st\<lparr>provider := snd (llm_response env (provider st) user_query)\<rparr>)
                    user_query (fst (llm_response env (provider st) user_query)))
                 \<lparr>agent_traces := written\<rparr>))" by blast
  show ?thesis
  proof (cases "check_cache st user_query")
    case None
    with b show ?thesis
      by (auto simp: secure_agent_executor_def guardrail_pii_def update_cache_def
          dest: guardrail_no_email)
  next
    case (Some cached)
    show ?thesis
    proof (cases cached)
      case Nil
      with Some b show ?thesis
        by (auto simp: secure_agent_executor_def guardrail_pii_def update_cache_def
            dest: guardrail_no_email)
    next
      case (Cons c cs)
      with Some b show ?thesis
        by (auto simp: secure_agent_executor_def guardrail_pii_def
            dest: guardrail_no_email)
    qed
  qed
qed

lemma mock_redacted:
  "re_sub guardrail_email_pattern ''[REDACTED_EMAIL]'' mock_response
     = ''Sure, I can help. Contact support at [REDACTED_EMAIL] for details.''"
  by code_simp

theorem secure_agent_output_redacted_witness:
  "(\<exists>tr' st'. secure_agent_executor no_key_env (1, 2)
        (''How do I reset my password?'', Tracer ''trace_1'', demo_production)
      = Inr (JStr ''Sure, I can help. Contact support at [REDACTED_EMAIL] for details.'', tr', st')
      \<and> CACHE_STORE st' ''How do I reset my password?'' = Some mock_response)
   \<and> (\<exists>tr' st'. secure_agent_executor no_key_env (3, 4)
        (''How do I reset my password?'', Tracer ''trace_1'',
         demo_production\<lparr>CACHE_STORE := [''How do I reset my password?'' \<mapsto> mock_response]\<rparr>)
      = Inr (JStr ''Sure, I can help. Contact support at [REDACTED_EMAIL] for details.'', tr', st')
      \<and> CACHE_STORE st' ''How do I reset my password?'' = Some mock_response)
   \<and> \<not> matches guardrail_email_pattern ''support at [REDACTED_EMAIL] for''"
proof -
  let ?q = "''How do I reset my password?''"
  let ?cached = "demo_production\<lparr>CACHE_STORE := [?q \<mapsto> mock_response]\<rparr>"
  let ?out = "''Sure, I can help. Contact support at [REDACTED_EMAIL] for details.''"
  have miss: "check_cache demo_production ?q = None"
    by (simp add: check_cache_def demo_production_def)
  have m: "CHR ''S'' # ''ure, I can help. Contact support at admin@company.com for details.''
      = mock_response"
    by (simp add: mock_response_def)
  have hit: "check_cache ?cached ?q
      = Some (CHR ''S'' # ''ure, I can help. Contact support at admin@company.com for details.'')"
    by (simp add: check_cache_def mock_response_def)
  have c: "CACHE_STORE ?cached ?q = Some mock_response" by simp
  have l: "fst (llm_response no_key_env (provider demo_production) ?q) = mock_response"
    by (simp add: llm_response_def no_key_env_def)
  have "\<exists>r tr' st'. secure_agent_executor no_key_env (1, 2) (?q, Tracer ''trace_1'', demo_production)
          = Inr (JStr r, tr', st')
    \<and> (\<forall>w. sublist w r \<longrightarrow> \<not> matches guardrail_email_pattern w)
    \<and> r = ?out \<and> CACHE_STORE st' ?q = Some mock_response"
    using secure_agent_output_redacted[of no_key_env 1 2 ?q "Tracer ''trace_1''" demo_production]
    by (simp only: miss option.case l mock_redacted)
  then obtain tr' st' where
    1: "secure_agent_executor no_key_env (1, 2) (?q, Tracer ''trace_1'', demo_production)
          = Inr (JStr ?out, tr', st')"
    and 2: "\<forall>w. sublist w ?out \<longrightarrow> \<not> matches guardrail_email_pattern w"
    and 3: "CACHE_STORE st' ?q = Some mock_response"
    by blast
  have "\<exists>r tr' st'. secure_agent_executor no_key_env (3, 4) (?q, Tracer ''trace_1'', ?cached)
          = Inr (JStr r, tr', st')
    \<and> (\<forall>w. sublist w r \<longrightarrow> \<not> matches guardrail_email_pattern w)
    \<and> r = ?out \<and> CACHE_STORE st' = CACHE_STORE ?cached"
    using secure_agent_output_redacted[of no_key_env 3 4 ?q "Tracer ''trace_1''" ?cached]
    by (simp only: hit option.case list.case) (simp only: m mock_redacted)
  then obtain tr2 st2 where
    4: "secure_agent_executor no_key_env (3, 4) (?q, Tracer ''trace_1'', ?cached)
          = Inr (JStr ?out, tr2, st2)"
    and 5: "CACHE_STORE st2 = CACHE_STORE ?cached"
    by blast
  from 5 c have 6: "CACHE_STORE st2 ?q = Some mock_response" by (simp only:)
  have "sublist ''support at [REDACTED_EMAIL] for'' ?out"
    by (simp add: sublist_code(3))
  with 2 have A: "\<not> matches guardrail_email_pattern ''support at [REDACTED_EMAIL] for''" by blast
  from 1 3 have B: "\<exists>tr' st'. secure_agent_executor no_key_env (1, 2)
        (?q, Tracer ''trace_1'', demo_production) = Inr (JStr ?out, tr', st')
      \<and> CACHE_STORE st' ?q = Some mock_response" by blast
  from 4 6 have C: "\<exists>tr' st'. secure_agent_executor no_key_env (3, 4)
        (?q, Tracer ''trace_1'', ?cached) = Inr (JStr ?out, tr', st')
      \<and> CACHE_STORE st' ?q = Some mock_response" by blast
  from B C A show ?thesis by (intro conjI)
qed

section \<open>Redaction is idempotent\<close>

lemma guardrail_twice:
  "re_sub guardrail_email_pattern ''[REDACTED_EMAIL]''
     (re_sub guardrail_email_pattern ''[REDACTED_EMAIL]'' t)
   = re_sub guardrail_email_pattern ''[REDACTED_EMAIL]'' t"
proof -
  have s: "''[REDACTED_EMAIL]'' = sentinel ''REDACTED_EMAIL''" by (simp add: sentinel_def)
  show ?thesis
    unfolding s by (rule re_sub_fixed[OF re_sub_clean[OF guardrail_sentinel_ok]])
qed

text \<open>
  Claim C5. \<open>redact\<close> replaces the email and the phone number of the example by their tokens,
  and redacting a redacted text changes nothing, for every text; so \<open>pii_guardrail\<close> gives
  the same for a string content and for its redaction. The replacement that the decorator
  \<open>guardrail_pii\<close> applies is idempotent in the same way.
\<close>

theorem redact_example_and_idempotent:
  "redact ''Contact a@b.com or 555-123-4567'' = ''Contact [REDACTED_EMAIL] or [REDACTED_PHONE]''
   \<and> redact (redact t) = redact t
   \<and> pii_guardrail (JStr (redact t)) = pii_guardrail (JStr t)
   \<and> re_sub guardrail_email_pattern ''[REDACTED_EMAIL]''
         (re_sub guardrail_email_pattern ''[REDACTED_EMAIL]'' t)
       = re_sub guardrail_email_pattern ''[REDACTED_EMAIL]'' t"
  by (simp add: redact_example redact_twice pii_guardrail_def guardrail_twice)

end
